theory Spec2Isabelle
  imports Complex_Main "HOL-Library.Multiset"
begin

section \<open>The flowers decision tree of \<open>tree.cc\<close>\<close>

text \<open>
  A shallow embedding of namespace \<open>fdt\<close> and of the counting loops of \<open>main\<close>.

  Conventions of the embedding.
  \<^item> A \<open>double\<close> is modelled by the real number it denotes. The five operations of
    \<open>double\<close> arithmetic that the source uses (\<open>+\<close>, \<open>-\<close>, \<open>*\<close>, \<open>/\<close>, \<open>std::log2\<close>) are a
    parameter \<open>fp\<close> of the model, a record of type \<open>fpu\<close>: a statement made for every \<open>fp\<close>
    holds whatever the rounding of an operation is. Two instances are defined: \<open>binary64\<close>
    rounds the exact result of each operation to the nearest number with a significand of 53
    bits, ties to even, and \<open>exact_fpu\<close> does not round. Comparisons of \<open>double\<close> values are
    the comparisons of the source. The conversion of an \<open>int\<close> to \<open>double\<close> is exact (the
    counts and the literals 0 and 2 are far below \<open>2^53\<close>). Infinities and NaN are outside the
    model: on finite features no operation of the source yields a NaN, and only the sum of
    line 138 can overflow.
  \<^item> An \<open>int\<close> counter or index is an unbounded integer or natural number; the only place
    where the width of a machine integer is written out is \<open>set_max_depth\<close> (an \<open>int\<close>
    that receives an \<open>int + size_t\<close> sum) and the \<open>size() - 1\<close> of the purity loop (a
    \<open>size_t\<close> that wraps at zero). \<open>int\<close> is 32 bits wide, \<open>size_t\<close> 64 bits.
  \<^item> Undefined behaviour of the source (reading a vector out of range, building an iterator
    range beyond the end, dereferencing an empty \<open>unique_ptr\<close>, dividing by a zero total) is
    a value of type \<open>error\<close>.
  \<^item> \<open>std::sort\<close> is modelled by \<open>sort_key\<close>. The order in which \<open>std::sort\<close> leaves
    flowers with equal keys is unspecified; only the multiset of the flowers on each side of a
    split point matters below.
  \<^item> \<open>std::random_device\<close> is the environment: the value that \<open>d2(g)\<close> and the value that
    \<open>d1(g)\<close> would return in the k-th call of \<open>find_best\<close> are read from an \<open>entropy\<close>
    function, and a counter of the calls made so far is threaded through \<open>build_tree\<close>.
\<close>

subsection \<open>Data\<close>

text \<open>
  A member \<open>x_\<close> of the source is the selector \<open>x_of\<close> here (a name cannot end with an
  underscore).
\<close>

datatype Feature = SL | SW | PL | PW

text \<open>
  \<open>class_\<close> holds the integer that \<open>read_from\<close> parsed and cast with \<open>(Class)c\<close>; the codes of
  \<open>setosa\<close>, \<open>versicolor\<close>, \<open>virginica\<close> are 0, 1, 2 and the cast keeps any other integer.
\<close>

record Flower =
  sl_of :: real
  sw_of :: real
  pl_of :: real
  pw_of :: real
  class_of :: int

fun feature :: "Flower \<Rightarrow> Feature \<Rightarrow> real" where
  "feature fl SL = sl_of fl"
| "feature fl SW = sw_of fl"
| "feature fl PL = pl_of fl"
| "feature fl PW = pw_of fl"

definition get_class :: "Flower \<Rightarrow> int" where
  "get_class fl = class_of fl"

datatype error = OutOfBounds | NullDeref | DivByZero

text \<open>The operations of \<open>double\<close> arithmetic that the source uses.\<close>

record fpu =
  fadd :: "real \<Rightarrow> real \<Rightarrow> real"
  fsub :: "real \<Rightarrow> real \<Rightarrow> real"
  fmul :: "real \<Rightarrow> real \<Rightarrow> real"
  fdiv :: "real \<Rightarrow> real \<Rightarrow> real"
  flog2 :: "real \<Rightarrow> real"

text \<open>Arithmetic without rounding.\<close>

definition exact_fpu :: fpu where
  "exact_fpu = \<lparr>fadd = (\<lambda>x y. x + y), fsub = (\<lambda>x y. x - y), fmul = (\<lambda>x y. x * y),
                 fdiv = (\<lambda>x y. x / y), flog2 = (\<lambda>x. log 2 x)\<rparr>"

text \<open>
  IEEE 754 binary64 with the default rounding. \<open>to_double x\<close> is the number with a
  significand of 53 bits that is nearest to \<open>x\<close>, the one with an even significand when two
  are equally near; below \<open>2^-1022\<close> the spacing is that of the subnormal numbers. The largest
  finite number is not modelled: a result beyond it is an infinity in the machine and is
  outside the model. Each operation rounds its exact result; \<open>std::log2\<close> is taken to be
  correctly rounded, and the runs below apply it to 1 and to 1/2 only, where its result is
  exact in every implementation.
\<close>

definition pow2 :: "int \<Rightarrow> real" where
  "pow2 e = (if 0 \<le> e then 2 ^ nat e else 1 / 2 ^ nat (- e))"

definition round_even :: "real \<Rightarrow> int" where
  "round_even x =
     (let n = \<lfloor>x\<rfloor> in
      if x - of_int n < 1 / 2 then n
      else if 1 / 2 < x - of_int n then n + 1
      else if even n then n else n + 1)"

definition to_double :: "real \<Rightarrow> real" where
  "to_double x =
     (if x = 0 then 0
      else let e = max \<lfloor>log 2 \<bar>x\<bar>\<rfloor> (- 1022)
           in of_int (round_even (x / pow2 (e - 52))) * pow2 (e - 52))"

definition binary64 :: fpu where
  "binary64 = \<lparr>fadd = (\<lambda>x y. to_double (x + y)), fsub = (\<lambda>x y. to_double (x - y)),
                fmul = (\<lambda>x y. to_double (x * y)), fdiv = (\<lambda>x y. to_double (x / y)),
                flog2 = (\<lambda>x. to_double (log 2 x))\<rparr>"

datatype Node = Node
  (feature_of: string)
  (threshold_of: real)
  (position_of: string)
  (flowers_of: "Flower list")
  (left_of: "Node option")
  (right_of: "Node option")

text \<open>
  The constructor \<open>Node(new_flowers, name)\<close>: \<open>feature_\<close> is the empty string, both children
  are null. \<open>threshold_\<close> is left uninitialised by the source and is written before it is
  read; the model puts 0 there.
\<close>

definition new_Node :: "Flower list \<Rightarrow> string \<Rightarrow> Node" where
  "new_Node new_flowers name = Node [] 0 name new_flowers None None"

text \<open>\<open>v[i]\<close> on a \<open>std::vector\<close>.\<close>

definition vec_at :: "'a list \<Rightarrow> int \<Rightarrow> error + 'a" where
  "vec_at xs i = (if 0 \<le> i \<and> i < int (length xs) then Inr (xs ! nat i) else Inl OutOfBounds)"

subsection \<open>The anonymous namespace\<close>

definition linlog :: "fpu \<Rightarrow> real \<Rightarrow> real" where
  "linlog fp x = (if x = 0 then 0 else fmul fp x (flog2 fp x))"

definition I :: "fpu \<Rightarrow> real \<Rightarrow> real \<Rightarrow> real \<Rightarrow> real" where
  "I fp x y z = fsub fp (fsub fp (fsub fp 0 (linlog fp x)) (linlog fp y)) (linlog fp z)"

text \<open>
  \<open>max_depth = depth + position_.size()\<close>: the sum is computed in \<open>size_t\<close> and converted to
  \<open>int\<close>, which keeps the low 32 bits as a signed number.
\<close>

definition set_max_depth :: "Node \<Rightarrow> int \<Rightarrow> int" where
  "set_max_depth node depth = signed_take_bit 31 (depth + int (length (position_of node)))"

subsection \<open>\<open>std::to_string\<close> on an \<open>int\<close>\<close>

definition digit_char :: "nat \<Rightarrow> char" where
  "digit_char d = ''0123456789'' ! d"

fun digits :: "nat \<Rightarrow> string" where
  "digits n = (if n < 10 then [digit_char n] else digits (n div 10) @ [digit_char (n mod 10)])"

declare digits.simps [simp del]

definition to_string :: "int \<Rightarrow> string" where
  "to_string i = (if i < 0 then CHR ''-'' # digits (nat (- i)) else digits (nat i))"

subsection \<open>Sorting, counting, gain\<close>

definition sort_flowers_by :: "Feature \<Rightarrow> Node \<Rightarrow> Node" where
  "sort_flowers_by f node =
     Node (feature_of node) (threshold_of node) (position_of node)
          (sort_key (\<lambda>fl. feature fl f) (flowers_of node)) (left_of node) (right_of node)"

fun count_step :: "int \<times> int \<times> int \<Rightarrow> Flower \<Rightarrow> int \<times> int \<times> int" where
  "count_step (a, b, c) fl =
     (if get_class fl = 0 then (a + 1, b, c)
      else if get_class fl = 1 then (a, b + 1, c)
      else if get_class fl = 2 then (a, b, c + 1)
      else (a, b, c))"

definition count_class :: "Node \<Rightarrow> int \<times> int \<times> int" where
  "count_class node = foldl count_step (0, 0, 0) (flowers_of node)"

text \<open>
  \<open>gain\<close> dereferences both children and divides by the three totals; the division by
  \<open>total\<close> is only reached behind the test of line 105.
\<close>

definition gain :: "fpu \<Rightarrow> Node \<Rightarrow> error + real" where
  "gain fp node =
     (case left_of node of None \<Rightarrow> Inl NullDeref | Some l \<Rightarrow>
     (case right_of node of None \<Rightarrow> Inl NullDeref | Some r \<Rightarrow>
     (case (count_class node, count_class l, count_class r) of
         ((a, b, c), (a1, b1, c1), (a2, b2, c2)) \<Rightarrow>
           let total = a + b + c; total1 = a1 + b1 + c1; total2 = a2 + b2 + c2 in
           if total1 = 0 \<or> total2 = 0 then Inr 0
           else if total = 0 then Inl DivByZero
           else Inr (fsub fp (fsub fp
                  (I fp (fdiv fp (real_of_int a) (real_of_int total))
                        (fdiv fp (real_of_int b) (real_of_int total))
                        (fdiv fp (real_of_int c) (real_of_int total)))
                  (fmul fp (fdiv fp (real_of_int total1) (real_of_int total))
                     (I fp (fdiv fp (real_of_int a1) (real_of_int total1))
                           (fdiv fp (real_of_int b1) (real_of_int total1))
                           (fdiv fp (real_of_int c1) (real_of_int total1)))))
                  (fmul fp (fdiv fp (real_of_int total2) (real_of_int total))
                     (I fp (fdiv fp (real_of_int a2) (real_of_int total2))
                           (fdiv fp (real_of_int b2) (real_of_int total2))
                           (fdiv fp (real_of_int c2) (real_of_int total2))))))))"

text \<open>
  \<open>split_node(index)\<close> copies the ranges \<open>[begin, begin + index)\<close> and
  \<open>[begin + index, end)\<close>; an index beyond the size is an invalid iterator range.
\<close>

definition split_node :: "Node \<Rightarrow> nat \<Rightarrow> error + Node" where
  "split_node node index =
     (if index \<le> length (flowers_of node) then
        Inr (Node (feature_of node) (threshold_of node) (position_of node) (flowers_of node)
               (Some (new_Node (take index (flowers_of node)) (position_of node @ ''L'')))
               (Some (new_Node (drop index (flowers_of node)) (position_of node @ ''R''))))
      else Inl OutOfBounds)"

subsection \<open>The split search \<open>max_gain\<close>\<close>

text \<open>The inner \<open>for\<close> loop of lines 123 to 127: it returns the value of \<open>split_point\<close> at its exit.\<close>

function next_change :: "Feature \<Rightarrow> Flower list \<Rightarrow> nat \<Rightarrow> error + nat" where
  "next_change f fls split_point =
     (if split_point < length fls then
        (case vec_at fls (int split_point - 1) of Inl e \<Rightarrow> Inl e | Inr x \<Rightarrow>
        (case vec_at fls (int split_point) of Inl e \<Rightarrow> Inl e | Inr y \<Rightarrow>
          if feature x f \<noteq> feature y f then Inr split_point
          else next_change f fls (split_point + 1)))
      else Inr split_point)"
  by pat_completeness auto
termination
  by (relation "measure (\<lambda>(f, fls, sp). length fls - sp)") auto

declare next_change.simps [simp del]

lemma next_change_ge: "next_change f fls sp = Inr sp' \<Longrightarrow> sp \<le> sp'"
proof (induction f fls sp rule: next_change.induct)
  case (1 f fls sp)
  show ?case
  proof (cases "sp < length fls")
    case False
    with "1.prems" show ?thesis by (simp add: next_change.simps [of f fls sp])
  next
    case True
    with "1.prems" "1.IH" show ?thesis
      by (auto simp: next_change.simps [of f fls sp] split: sum.splits if_splits dest: Suc_leD)
  qed
qed

lemma vec_at_Inr:
  "vec_at xs i = Inr x \<longleftrightarrow> 0 \<le> i \<and> i < int (length xs) \<and> x = xs ! nat i"
  by (auto simp: vec_at_def)

lemma split_node_flowers: "split_node node i = Inr node' \<Longrightarrow> flowers_of node' = flowers_of node"
  by (auto simp: split_node_def split: if_splits)

text \<open>
  The outer loop of lines 122 to 135, entered with the current values of \<open>split_point\<close>,
  \<open>index\<close> and \<open>cur_max\<close>. After a candidate the body increments \<open>split_point\<close> (line 134) and
  so does the loop header: the next iteration starts two positions further.
\<close>

function scan ::
  "fpu \<Rightarrow> Feature \<Rightarrow> Node \<Rightarrow> nat \<Rightarrow> nat \<Rightarrow> real \<Rightarrow> error + (Node \<times> nat \<times> real)" where
  "scan fp f node split_point index cur_max =
     (if split_point < length (flowers_of node) then
        (case next_change f (flowers_of node) split_point of Inl e \<Rightarrow> Inl e | Inr sp \<Rightarrow>
        (case split_node node sp of Inl e \<Rightarrow> Inl e | Inr node' \<Rightarrow>
        (case gain fp node' of Inl e \<Rightarrow> Inl e | Inr candidate \<Rightarrow>
          if candidate > cur_max then scan fp f node' (sp + 2) sp candidate
          else scan fp f node' (sp + 2) index cur_max)))
      else Inr (node, index, cur_max))"
  by pat_completeness auto
termination
  by (relation "measure (\<lambda>(fp, f, node, sp, index, cur_max). length (flowers_of node) - sp)")
     (auto dest!: next_change_ge split_node_flowers)

declare scan.simps [simp del]

definition feature_name :: "Feature \<Rightarrow> string" where
  "feature_name f = (case f of SL \<Rightarrow> ''SL'' | SW \<Rightarrow> ''SW'' | PL \<Rightarrow> ''PL'' | PW \<Rightarrow> ''PW'')"

definition max_gain :: "fpu \<Rightarrow> Feature \<Rightarrow> Node \<Rightarrow> error + (real \<times> Node)" where
  "max_gain fp f node0 =
     (case scan fp f (sort_flowers_by f node0) 1 1 0 of Inl e \<Rightarrow> Inl e | Inr (node1, index, cur_max) \<Rightarrow>
     (case split_node node1 index of Inl e \<Rightarrow> Inl e | Inr node2 \<Rightarrow>
     (case vec_at (flowers_of node2) (int index - 1) of Inl e \<Rightarrow> Inl e | Inr x \<Rightarrow>
     (case vec_at (flowers_of node2) (int index) of Inl e \<Rightarrow> Inl e | Inr y \<Rightarrow>
        Inr (cur_max,
             Node (feature_name f) (fdiv fp (fadd fp (feature x f) (feature y f)) 2)
                  (position_of node2) (flowers_of node2) (left_of node2) (right_of node2))))))"

lemma scan_flowers:
  "scan fp f node sp idx cm = Inr (node', idx', cm') \<Longrightarrow> flowers_of node' = flowers_of node"
proof (induction fp f node sp idx cm rule: scan.induct)
  case (1 fp f node sp idx cm)
  show ?case
  proof (cases "sp < length (flowers_of node)")
    case False
    with "1.prems" show ?thesis by (simp add: scan.simps [of fp f node])
  next
    case True
    with "1.prems" "1.IH" show ?thesis
      by (auto simp: scan.simps [of fp f node] split: sum.splits if_splits dest: split_node_flowers)
  qed
qed

lemma max_gain_Inr_length:
  assumes "max_gain fp f node = Inr (g, node')"
  shows "length (flowers_of node') = length (flowers_of node)"
    and "left_of node' = Some l \<Longrightarrow> length (flowers_of l) < length (flowers_of node)"
    and "right_of node' = Some r \<Longrightarrow> length (flowers_of r) < length (flowers_of node)"
proof -
  from assms obtain node1 index cur_max node2 x y where
    sc: "scan fp f (sort_flowers_by f node) 1 1 0 = Inr (node1, index, cur_max)"
    and sn: "split_node node1 index = Inr node2"
    and x: "vec_at (flowers_of node2) (int index - 1) = Inr x"
    and y: "vec_at (flowers_of node2) (int index) = Inr y"
    and n': "node' = Node (feature_name f) (fdiv fp (fadd fp (feature x f) (feature y f)) 2)
                  (position_of node2) (flowers_of node2) (left_of node2) (right_of node2)"
    unfolding max_gain_def by (auto split: sum.splits)
  have len: "length (flowers_of node1) = length (flowers_of node)"
    using scan_flowers [OF sc] by (simp add: sort_flowers_by_def)
  have idx: "0 < index" "index < length (flowers_of node1)"
    using x y split_node_flowers [OF sn] by (auto simp: vec_at_Inr)
  show "length (flowers_of node') = length (flowers_of node)"
    using n' len split_node_flowers [OF sn] by simp
  show "length (flowers_of l) < length (flowers_of node)" if "left_of node' = Some l"
    using that n' sn idx len by (auto simp: split_node_def new_Node_def split: if_splits)
  show "length (flowers_of r) < length (flowers_of node)" if "right_of node' = Some r"
    using that n' sn idx len by (auto simp: split_node_def new_Node_def split: if_splits)
qed

subsection \<open>Leaves\<close>

text \<open>
  \<open>find_best\<close> receives the pair of values that \<open>d2(g)\<close> (uniform on 0, 1, 2) and \<open>d1(g)\<close>
  (uniform on 0, 1) would return; it reads at most one of them.
\<close>

fun find_best :: "int \<times> int \<Rightarrow> int \<Rightarrow> int \<Rightarrow> int \<Rightarrow> int" where
  "find_best (d2, d1) a b c =
     (if a = b \<and> b = c then d2
      else if a = b \<and> b > c then d1
      else if b = c \<and> c > a then 1 + d1
      else if c = a \<and> a > b then 2 * d1
      else if a = b then 2
      else if b = c then 0
      else if c = a then 1
      else of_bool (b > a \<and> b > c) + 2 * of_bool (c > a \<and> c > b))"

definition make_leaf :: "int \<times> int \<Rightarrow> Node \<Rightarrow> Node" where
  "make_leaf u node =
     (case count_class node of (a, b, c) \<Rightarrow>
        Node (to_string (find_best u a b c)) 0 (position_of node) (flowers_of node) None None)"

definition size_minus_1 :: "Flower list \<Rightarrow> int" where
  "size_minus_1 fls = (if fls = [] then 2 ^ 64 - 1 else int (length fls) - 1)"

subsection \<open>\<open>build_tree\<close>\<close>

text \<open>
  The loop of lines 189 to 195. \<open>flowers_.size() - 1\<close> is computed in \<open>size_t\<close>, so it is
  \<open>2^64 - 1\<close> for an empty vector (\<open>size_minus_1\<close>; the size of a vector is below \<open>2^64\<close>). The result \<open>True\<close> stands for \<open>make_leaf(); return\<close>, the
  result \<open>False\<close> for leaving the loop (by \<open>break\<close> or by its condition). The comparison
  \<open>max_depth == position_.size()\<close> converts a negative \<open>max_depth\<close> to a \<open>size_t\<close> of at
  least \<open>2^64 - 2^31\<close>, which no string length reaches: it is false then, as the comparison of
  the integers is.
\<close>

function same_class_loop :: "int \<Rightarrow> Node \<Rightarrow> nat \<Rightarrow> error + bool" where
  "same_class_loop max_depth node i =
     (if int i \<le> size_minus_1 (flowers_of node) then
        if int i = size_minus_1 (flowers_of node) \<or> max_depth = int (length (position_of node))
        then Inr True
        else
          (case vec_at (flowers_of node) (int i) of Inl e \<Rightarrow> Inl e | Inr x \<Rightarrow>
          (case vec_at (flowers_of node) (int i + 1) of Inl e \<Rightarrow> Inl e | Inr y \<Rightarrow>
             if get_class x \<noteq> get_class y then Inr False
             else same_class_loop max_depth node (i + 1)))
      else Inr False)"
  by pat_completeness auto
termination
  by (relation "measure (\<lambda>(max_depth, node, i). length (flowers_of node) - i)")
     (auto simp: vec_at_Inr)

declare same_class_loop.simps [simp del]

text \<open>The branch that lines 205 to 213 take.\<close>

definition best_feature :: "real \<Rightarrow> real \<Rightarrow> real \<Rightarrow> real \<Rightarrow> Feature" where
  "best_feature gainSL gainSW gainPL gainPW =
     (if gainSL \<ge> gainSW \<and> gainSL \<ge> gainPL \<and> gainSL \<ge> gainPW then SL
      else if gainSW \<ge> gainSL \<and> gainSW \<ge> gainPL \<and> gainSW \<ge> gainPW then SW
      else if gainPL \<ge> gainSL \<and> gainPL \<ge> gainSW \<and> gainPL \<ge> gainPW then PL
      else PW)"

lemma build_tree_children_smaller:
  assumes "max_gain fp SL node = Inr (a, n1)" "max_gain fp SW n1 = Inr (b, n2)"
    "max_gain fp PL n2 = Inr (c, n3)" "max_gain fp PW n3 = Inr (d, n4)" "max_gain fp f n4 = Inr (g, n5)"
  shows "left_of n5 = Some l \<Longrightarrow> length (flowers_of l) < length (flowers_of node)"
    and "right_of n5 = Some r \<Longrightarrow> length (flowers_of r) < length (flowers_of node)"
  using max_gain_Inr_length(1) [OF assms(1)] max_gain_Inr_length(1) [OF assms(2)]
    max_gain_Inr_length(1) [OF assms(3)] max_gain_Inr_length(1) [OF assms(4)]
    max_gain_Inr_length(2) [OF assms(5), of l] max_gain_Inr_length(3) [OF assms(5), of r]
  by simp_all

text \<open>
  \<open>build_tree\<close> with the global \<open>max_depth\<close> as a parameter. The counter \<open>k\<close> is the number
  of \<open>find_best\<close> calls made so far; the left subtree is built first and hands its counter to
  the right one.
\<close>

function build_tree ::
  "fpu \<Rightarrow> int \<Rightarrow> (nat \<Rightarrow> int \<times> int) \<Rightarrow> Node \<Rightarrow> nat \<Rightarrow> error + (Node \<times> nat)" where
  "build_tree fp max_depth entropy node k =
     (case same_class_loop max_depth node 0 of Inl e \<Rightarrow> Inl e | Inr leaf \<Rightarrow>
      if leaf then Inr (make_leaf (entropy k) node, k + 1)
      else
     (case max_gain fp SL node of Inl e \<Rightarrow> Inl e | Inr (gainSL, n1) \<Rightarrow>
     (case max_gain fp SW n1 of Inl e \<Rightarrow> Inl e | Inr (gainSW, n2) \<Rightarrow>
     (case max_gain fp PL n2 of Inl e \<Rightarrow> Inl e | Inr (gainPL, n3) \<Rightarrow>
     (case max_gain fp PW n3 of Inl e \<Rightarrow> Inl e | Inr (gainPW, n4) \<Rightarrow>
      if gainSL = 0 \<and> gainSW = 0 \<and> gainPL = 0 \<and> gainPW = 0
      then Inr (make_leaf (entropy k) n4, k + 1)
      else
     (case max_gain fp (best_feature gainSL gainSW gainPL gainPW) n4
      of Inl e \<Rightarrow> Inl e | Inr (g, n5) \<Rightarrow>
     (case left_of n5 of None \<Rightarrow> Inl NullDeref | Some l \<Rightarrow>
     (case build_tree fp max_depth entropy l k of Inl e \<Rightarrow> Inl e | Inr (l', k1) \<Rightarrow>
     (case right_of n5 of None \<Rightarrow> Inl NullDeref | Some r \<Rightarrow>
     (case build_tree fp max_depth entropy r k1 of Inl e \<Rightarrow> Inl e | Inr (r', k2) \<Rightarrow>
        Inr (Node (feature_of n5) (threshold_of n5) (position_of n5) (flowers_of n5)
               (Some l') (Some r'), k2)))))))))))"
  by pat_completeness auto
termination
proof (relation "measure (\<lambda>(fp, max_depth, entropy, node, k). length (flowers_of node))")
  show "wf (measure (\<lambda>(fp, max_depth, entropy, node, k). length (flowers_of node)))" by simp
qed (auto intro: build_tree_children_smaller)

declare build_tree.simps [simp del]

subsection \<open>\<open>validate_flower\<close> and the counting loops of \<open>main\<close>\<close>

fun validate_flower :: "Node \<Rightarrow> Flower \<Rightarrow> error + bool" where
  "validate_flower (Node ft th pos fls l r) f =
     (if ft = ''SL'' then
        (if feature f SL < th then (case l of None \<Rightarrow> Inl NullDeref | Some n \<Rightarrow> validate_flower n f)
         else (case r of None \<Rightarrow> Inl NullDeref | Some n \<Rightarrow> validate_flower n f))
      else if ft = ''SW'' then
        (if feature f SW < th then (case l of None \<Rightarrow> Inl NullDeref | Some n \<Rightarrow> validate_flower n f)
         else (case r of None \<Rightarrow> Inl NullDeref | Some n \<Rightarrow> validate_flower n f))
      else if ft = ''PL'' then
        (if feature f PL < th then (case l of None \<Rightarrow> Inl NullDeref | Some n \<Rightarrow> validate_flower n f)
         else (case r of None \<Rightarrow> Inl NullDeref | Some n \<Rightarrow> validate_flower n f))
      else if ft = ''PW'' then
        (if feature f PW < th then (case l of None \<Rightarrow> Inl NullDeref | Some n \<Rightarrow> validate_flower n f)
         else (case r of None \<Rightarrow> Inl NullDeref | Some n \<Rightarrow> validate_flower n f))
      else Inr (to_string (get_class f) = ft))"



section \<open>Derived notions used in the statements\<close>

text \<open>The number of flowers of class code \<open>k\<close> in a list.\<close>

definition cnt :: "int \<Rightarrow> Flower list \<Rightarrow> int" where
  "cnt k fls = int (length (filter (\<lambda>x. get_class x = k) fls))"

text \<open>The sum of the three counters of \<open>count_class\<close> on a list.\<close>

definition total_of :: "Flower list \<Rightarrow> int" where
  "total_of fls = cnt 0 fls + cnt 1 fls + cnt 2 fls"

text \<open>\<open>I\<close> at the three class proportions of a list, as \<open>gain\<close> forms them.\<close>

definition info_of :: "fpu \<Rightarrow> Flower list \<Rightarrow> real" where
  "info_of fp fls = I fp (fdiv fp (real_of_int (cnt 0 fls)) (real_of_int (total_of fls)))
                      (fdiv fp (real_of_int (cnt 1 fls)) (real_of_int (total_of fls)))
                      (fdiv fp (real_of_int (cnt 2 fls)) (real_of_int (total_of fls)))"

text \<open>The value of \<open>gain()\<close> after \<open>split_node(i)\<close> on a node that holds the list.\<close>

definition gain_at :: "fpu \<Rightarrow> Flower list \<Rightarrow> nat \<Rightarrow> real" where
  "gain_at fp fls i =
     (if total_of (take i fls) = 0 \<or> total_of (drop i fls) = 0 then 0
      else fsub fp (fsub fp (info_of fp fls)
             (fmul fp (fdiv fp (real_of_int (total_of (take i fls))) (real_of_int (total_of fls)))
                (info_of fp (take i fls))))
             (fmul fp (fdiv fp (real_of_int (total_of (drop i fls))) (real_of_int (total_of fls)))
                (info_of fp (drop i fls))))"

text \<open>A result without the node it carries.\<close>

definition outcome :: "error + (Node \<times> 'a) \<Rightarrow> error + 'a" where
  "outcome r = (case r of Inl e \<Rightarrow> Inl e | Inr (node, v) \<Rightarrow> Inr v)"

text \<open>The number that \<open>max_gain(f)\<close> returns.\<close>

definition best_gain :: "fpu \<Rightarrow> Feature \<Rightarrow> Node \<Rightarrow> error + real" where
  "best_gain fp f node = (case max_gain fp f node of Inl e \<Rightarrow> Inl e | Inr (g, node') \<Rightarrow> Inr g)"

text \<open>The flowers as \<open>sort_flowers_by\<close> leaves them.\<close>

definition sorted_by :: "Feature \<Rightarrow> Flower list \<Rightarrow> Flower list" where
  "sorted_by f fls = sort_key (\<lambda>x. feature x f) fls"

text \<open>A class code that \<open>count_class\<close> counts: one of the three enumerators.\<close>

definition valid_class :: "Flower \<Rightarrow> bool" where
  "valid_class fl = (get_class fl = 0 \<or> get_class fl = 1 \<or> get_class fl = 2)"

text \<open>A flower from its five fields, for the concrete inputs below.\<close>

definition flower :: "real \<Rightarrow> real \<Rightarrow> real \<Rightarrow> real \<Rightarrow> int \<Rightarrow> Flower" where
  "flower a b c d k = \<lparr>sl_of = a, sw_of = b, pl_of = c, pw_of = d, class_of = k\<rparr>"

text \<open>All flowers of a list carry one class code.\<close>

definition same_class :: "Flower list \<Rightarrow> bool" where
  "same_class fls = (\<forall>x \<in> set fls. \<forall>y \<in> set fls. get_class x = get_class y)"

text \<open>The order of the flowers after the four searches of lines 197 to 200.\<close>

definition searched :: "Flower list \<Rightarrow> Flower list" where
  "searched fls = sorted_by PW (sorted_by PL (sorted_by SW (sorted_by SL fls)))"

text \<open>What \<open>make_leaf\<close> leaves of a node with the given position and flowers.\<close>

definition leaf_of :: "int \<times> int \<Rightarrow> string \<Rightarrow> Flower list \<Rightarrow> Node" where
  "leaf_of u pos fls =
     Node (to_string (find_best u (cnt 0 fls) (cnt 1 fls) (cnt 2 fls))) 0 pos fls None None"

text \<open>The threshold of line 138 for the split index \<open>i\<close> of the sorted flowers \<open>s\<close>.\<close>

definition midpoint_at :: "fpu \<Rightarrow> Feature \<Rightarrow> Flower list \<Rightarrow> nat \<Rightarrow> real" where
  "midpoint_at fp f s i = fdiv fp (fadd fp (feature (s ! (i - 1)) f) (feature (s ! i) f)) 2"

text \<open>All nodes of a tree: the node, then those of its left and of its right subtree.\<close>

fun nodes_of :: "Node \<Rightarrow> Node list" where
  "nodes_of (Node ft th pos fls l r) =
     Node ft th pos fls l r
       # (case l of None \<Rightarrow> [] | Some n \<Rightarrow> nodes_of n) @ (case r of None \<Rightarrow> [] | Some n \<Rightarrow> nodes_of n)"

text \<open>The declared order of the features (line 16).\<close>

fun rank :: "Feature \<Rightarrow> nat" where
  "rank SL = 0" | "rank SW = 1" | "rank PL = 2" | "rank PW = 3"

text \<open>The four gains of lines 197 to 200 as a function of the feature.\<close>

definition gain_table :: "real \<Rightarrow> real \<Rightarrow> real \<Rightarrow> real \<Rightarrow> Feature \<Rightarrow> real" where
  "gain_table gainSL gainSW gainPL gainPW f =
     (case f of SL \<Rightarrow> gainSL | SW \<Rightarrow> gainSW | PL \<Rightarrow> gainPL | PW \<Rightarrow> gainPW)"

text \<open>
  Two flowers of two classes that differ in sepal length only, and an environment whose
  draws are all 0.
\<close>

definition ex2 :: "Flower list" where
  "ex2 = [flower 1 1 1 1 0, flower 2 1 1 1 1]"

definition ent0 :: "nat \<Rightarrow> int \<times> int" where
  "ent0 k = (0, 0)"

text \<open>
  An internal node \<open>n\<close> with children \<open>l\<close> and \<open>r\<close>: its flowers are sorted by its feature,
  the value of the feature changes at an index \<open>i\<close>, its threshold is the midpoint computed
  there, and the children hold the flowers before and from \<open>i\<close>: values at most the one at
  \<open>i - 1\<close> on the left, at least the one at \<open>i\<close> on the right.
\<close>

definition exact_split :: "fpu \<Rightarrow> Node \<Rightarrow> Node \<Rightarrow> Node \<Rightarrow> bool" where
  "exact_split fp n l r =
     (\<exists>f i. feature_of n = feature_name f \<and> 0 < i \<and> i < length (flowers_of n)
        \<and> sorted (map (\<lambda>x. feature x f) (flowers_of n))
        \<and> feature (flowers_of n ! (i - 1)) f < feature (flowers_of n ! i) f
        \<and> threshold_of n = midpoint_at fp f (flowers_of n) i
        \<and> mset (flowers_of l) = mset (take i (flowers_of n))
        \<and> mset (flowers_of r) = mset (drop i (flowers_of n))
        \<and> (\<forall>x \<in> set (flowers_of l). feature x f \<le> feature (flowers_of n ! (i - 1)) f)
        \<and> (\<forall>x \<in> set (flowers_of r). feature (flowers_of n ! i) f \<le> feature x f))"


text \<open>The tree that \<open>build_tree\<close> returns on \<open>ex2\<close> below a root at position \<open>pos\<close>.\<close>

definition ex2_tree :: "string \<Rightarrow> Node" where
  "ex2_tree pos = Node ''SL'' (3 / 2) pos ex2
            (Some (Node ''0'' 0 (pos @ ''L'') [flower 1 1 1 1 0] None None))
            (Some (Node ''1'' 0 (pos @ ''R'') [flower 2 1 1 1 1] None None))"

text \<open>
  Two flowers of two classes whose sepal lengths are 1 and the next \<open>double\<close> above 1, and
  the tree that \<open>build_tree\<close> returns on them.
\<close>

definition one_plus_ulp :: real where
  "one_plus_ulp = 1 + 1 / 2 ^ 52"

definition ex2r :: "Flower list" where
  "ex2r = [flower 1 1 1 1 0, flower one_plus_ulp 1 1 1 1]"

definition ex2r_tree :: Node where
  "ex2r_tree = Node ''SL'' 1 [] ex2r
            (Some (Node ''0'' 0 ''L'' [flower 1 1 1 1 0] None None))
            (Some (Node ''1'' 0 ''R'' [flower one_plus_ulp 1 1 1 1] None None))"

text \<open>
  Four flowers with the sepal lengths 1, 1, 2, 3 and the classes 0, 1, 0, 1: the sorted value
  changes at the indices 2 and 3.
\<close>

definition ex4 :: "Flower list" where
  "ex4 = [flower 1 1 1 1 0, flower 1 1 1 1 1, flower 2 1 1 1 0, flower 3 1 1 1 1]"





text \<open>
  The spec's \<open>classify\<close>, written from its words and not from the source: starting at the root, at each
  internal node compare the value of the node's feature to the node's threshold, go left if
  it is less and right otherwise; at a leaf return the stored label. \<open>feature_named\<close> reads
  the feature identifier of an internal node.
\<close>

definition feature_named :: "string \<Rightarrow> Feature option" where
  "feature_named s =
     (if s = ''SL'' then Some SL else if s = ''SW'' then Some SW
      else if s = ''PL'' then Some PL else if s = ''PW'' then Some PW else None)"

fun classify_spec :: "Node \<Rightarrow> Flower \<Rightarrow> string option" where
  "classify_spec (Node ft th pos fls None None) x = Some ft"
| "classify_spec (Node ft th pos fls (Some l) (Some r)) x =
     (case feature_named ft of None \<Rightarrow> None
      | Some f \<Rightarrow> if feature x f < th then classify_spec l x else classify_spec r x)"
| "classify_spec (Node ft th pos fls None (Some r)) x = None"
| "classify_spec (Node ft th pos fls (Some l) None) x = None"


text \<open>
  Three flowers with the sepal lengths 1, 2, 3 and the classes 0, 0, 1: the sorted value
  changes at the indices 1 and 2.
\<close>

definition ex3 :: "Flower list" where
  "ex3 = [flower 1 1 1 1 0, flower 2 1 1 1 0, flower 3 1 1 1 1]"

text \<open>
  The same three flowers with the sepal widths 1, 1, 2: the sorted sepal width changes at the
  index 2 only.
\<close>

definition ex3b :: "Flower list" where
  "ex3b = [flower 1 1 1 1 0, flower 2 1 1 1 0, flower 3 2 1 1 1]"

section \<open>Vectors, the inner loop, counting\<close>

lemma vec_at_nat: "i < length xs \<Longrightarrow> vec_at xs (int i) = Inr (xs ! i)"
  by (simp add: vec_at_def)

lemma vec_at_pred: "0 < i \<Longrightarrow> i \<le> length xs \<Longrightarrow> vec_at xs (int i - 1) = Inr (xs ! (i - 1))"
  by (auto simp: vec_at_def nat_diff_distrib')

lemma next_change_unfold:
  "0 < sp \<Longrightarrow> next_change f fls sp =
     (if sp < length fls then
        if feature (fls ! (sp - 1)) f \<noteq> feature (fls ! sp) f then Inr sp
        else next_change f fls (sp + 1)
      else Inr sp)"
  by (subst next_change.simps) (simp add: vec_at_nat vec_at_pred)

lemma next_change_props:
  "0 < sp \<Longrightarrow> \<exists>sp'. next_change f fls sp = Inr sp' \<and> sp \<le> sp' \<and> (sp \<le> length fls \<longrightarrow> sp' \<le> length fls)
     \<and> (sp' < length fls \<longrightarrow> feature (fls ! (sp' - 1)) f \<noteq> feature (fls ! sp') f)"
proof (induction f fls sp rule: next_change.induct)
  case (1 f fls sp)
  show ?case
  proof (cases "sp < length fls \<and> feature (fls ! (sp - 1)) f = feature (fls ! sp) f")
    case True
    then have "\<exists>sp'. next_change f fls (sp + 1) = Inr sp' \<and> sp + 1 \<le> sp' \<and> (sp + 1 \<le> length fls \<longrightarrow> sp' \<le> length fls)
     \<and> (sp' < length fls \<longrightarrow> feature (fls ! (sp' - 1)) f \<noteq> feature (fls ! sp') f)"
      using "1.IH" [of "fls ! (sp - 1)" "fls ! sp"] "1.prems" by (simp add: vec_at_nat vec_at_pred)
    then show ?thesis using True "1.prems" by (subst next_change_unfold) auto
  next
    case False
    then show ?thesis using "1.prems" by (subst next_change_unfold) auto
  qed
qed

lemma next_change_keys:
  "map (\<lambda>x. feature x f) xs = map (\<lambda>x. feature x f) ys \<Longrightarrow> 0 < sp \<Longrightarrow>
   next_change f xs sp = next_change f ys sp"
proof (induction f xs sp rule: next_change.induct)
  case (1 f xs sp)
  from "1.prems" have len: "length xs = length ys"
    by (metis length_map)
  have key: "i < length xs \<Longrightarrow> feature (xs ! i) f = feature (ys ! i) f" for i
    using "1.prems"(1) len by (metis nth_map)
  show ?case
  proof (cases "sp < length xs")
    case False
    then show ?thesis
      using "1.prems"(2) len
      by (simp add: next_change_unfold [of sp f xs] next_change_unfold [of sp f ys])
  next
    case True
    have k1: "feature (xs ! (sp - 1)) f = feature (ys ! (sp - 1)) f"
      using True key [of "sp - 1"] by simp
    have k2: "feature (xs ! sp) f = feature (ys ! sp) f"
      using True key [of sp] by simp
    show ?thesis
    proof (cases "feature (xs ! (sp - 1)) f = feature (xs ! sp) f")
      case eq: True
      have "next_change f xs (sp + 1) = next_change f ys (sp + 1)"
        using "1.IH" [of "xs ! (sp - 1)" "xs ! sp"] "1.prems" True eq
        by (simp add: vec_at_nat vec_at_pred)
      moreover have "next_change f xs sp = next_change f xs (sp + 1)"
        using True eq "1.prems"(2) by (simp add: next_change_unfold [of sp f xs])
      moreover have "next_change f ys sp = next_change f ys (sp + 1)"
        using True eq "1.prems"(2) len unfolding k1 k2
        by (simp add: next_change_unfold [of sp f ys])
      ultimately show ?thesis by simp
    next
      case ne: False
      have "next_change f xs sp = Inr sp"
        using True ne "1.prems"(2) by (simp add: next_change_unfold [of sp f xs])
      moreover have "next_change f ys sp = Inr sp"
        using True ne "1.prems"(2) len unfolding k1 k2
        by (simp add: next_change_unfold [of sp f ys])
      ultimately show ?thesis by simp
    qed
  qed
qed

lemma cnt_nonneg: "0 \<le> cnt k fls"
  by (simp add: cnt_def)

lemma cnt_append: "cnt k (xs @ ys) = cnt k xs + cnt k ys"
  by (simp add: cnt_def)

lemma cnt_Nil: "cnt k [] = 0"
  by (simp add: cnt_def)

lemma cnt_take_drop: "cnt k (take i xs) + cnt k (drop i xs) = cnt k xs"
  using cnt_append [of k "take i xs" "drop i xs"] by simp

lemma cnt_mset: "mset xs = mset ys \<Longrightarrow> cnt k xs = cnt k ys"
  unfolding cnt_def by (metis mset_filter size_mset)

lemma foldl_count_step:
  "foldl count_step (a, b, c) fls = (a + cnt 0 fls, b + cnt 1 fls, c + cnt 2 fls)"
  by (induction fls arbitrary: a b c) (auto simp: cnt_def)

lemma count_class_cnt:
  "count_class node = (cnt 0 (flowers_of node), cnt 1 (flowers_of node), cnt 2 (flowers_of node))"
  using foldl_count_step [of 0 0 0 "flowers_of node"] by (simp add: count_class_def)

lemma total_of_nonneg: "0 \<le> total_of fls"
  by (simp add: total_of_def cnt_nonneg)

lemma total_of_take_drop: "total_of (take i xs) + total_of (drop i xs) = total_of xs"
  using cnt_take_drop [of 0 i xs] cnt_take_drop [of 1 i xs] cnt_take_drop [of 2 i xs]
  by (simp add: total_of_def)

lemma total_of_Nil: "total_of [] = 0"
  by (simp add: total_of_def cnt_Nil)

lemma total_of_mset: "mset xs = mset ys \<Longrightarrow> total_of xs = total_of ys"
  by (simp add: total_of_def cnt_mset [of xs ys])

lemma info_of_mset: "mset xs = mset ys \<Longrightarrow> info_of fp xs = info_of fp ys"
  by (simp add: info_of_def cnt_mset [of xs ys] total_of_mset [of xs ys])

lemma gain_split_node:
  assumes "split_node node i = Inr node'"
  shows "gain fp node' = Inr (gain_at fp (flowers_of node) i)"
proof -
  let ?fl = "flowers_of node"
  from assms have l: "left_of node' = Some (new_Node (take i ?fl) (position_of node @ ''L''))"
    and r: "right_of node' = Some (new_Node (drop i ?fl) (position_of node @ ''R''))"
    and fl: "flowers_of node' = ?fl"
    by (auto simp: split_node_def split: if_splits)
  have nz: "total_of ?fl \<noteq> 0" if "total_of (take i ?fl) \<noteq> 0"
    using that total_of_take_drop [of i ?fl] total_of_nonneg [of "take i ?fl"]
      total_of_nonneg [of "drop i ?fl"] by linarith
  show ?thesis
    using nz
    by (simp add: gain_def l r fl count_class_cnt new_Node_def gain_at_def Let_def
        total_of_def info_of_def)
qed

lemma gain_at_length: "gain_at fp fls (length fls) = 0"
  by (simp add: gain_at_def total_of_Nil)

section \<open>The outer loop of the split search\<close>

lemma split_node_ok:
  "i \<le> length (flowers_of node) \<Longrightarrow>
   split_node node i =
     Inr (Node (feature_of node) (threshold_of node) (position_of node) (flowers_of node)
            (Some (new_Node (take i (flowers_of node)) (position_of node @ ''L'')))
            (Some (new_Node (drop i (flowers_of node)) (position_of node @ ''R''))))"
  by (simp add: split_node_def)

lemma split_node_position: "split_node node i = Inr node' \<Longrightarrow> position_of node' = position_of node"
  by (auto simp: split_node_def split: if_splits)

lemma scan_props:
  "0 < sp \<Longrightarrow> 0 \<le> cm \<Longrightarrow>
   \<exists>node' idx' cm'. scan fp f node sp idx cm = Inr (node', idx', cm')
     \<and> flowers_of node' = flowers_of node \<and> position_of node' = position_of node
     \<and> ((idx' = idx \<and> cm' = cm)
        \<or> (cm < cm' \<and> 0 < idx' \<and> idx' < length (flowers_of node)
           \<and> feature (flowers_of node ! (idx' - 1)) f \<noteq> feature (flowers_of node ! idx') f
           \<and> cm' = gain_at fp (flowers_of node) idx'))"
proof (induction fp f node sp idx cm rule: scan.induct)
  case (1 fp f node sp idx cm)
  let ?fl = "flowers_of node"
  show ?case
  proof (cases "sp < length ?fl")
    case False
    then show ?thesis by (subst scan.simps) simp
  next
    case True
    from next_change_props [of sp f ?fl] "1.prems"(1) True
    obtain sp' where nc: "next_change f ?fl sp = Inr sp'" and ge: "sp \<le> sp'" and le: "sp' \<le> length ?fl"
      and chg: "sp' < length ?fl \<longrightarrow> feature (?fl ! (sp' - 1)) f \<noteq> feature (?fl ! sp') f"
      by auto
    obtain node' where sn: "split_node node sp' = Inr node'"
      using split_node_ok [OF le] by blast
    have fl': "flowers_of node' = ?fl" and pos': "position_of node' = position_of node"
      using sn by (auto dest: split_node_flowers split_node_position)
    have g: "gain fp node' = Inr (gain_at fp ?fl sp')"
      using gain_split_node [OF sn] .
    show ?thesis
    proof (cases "gain_at fp ?fl sp' > cm")
      case gt: True
      have lt: "sp' < length ?fl"
      proof (rule ccontr)
        assume "\<not> sp' < length ?fl"
        with le have "sp' = length ?fl" by simp
        with gt "1.prems"(2) show False by (simp add: gain_at_length)
      qed
      have eq: "scan fp f node sp idx cm = scan fp f node' (sp' + 2) sp' (gain_at fp ?fl sp')"
        using True nc sn g gt by (subst scan.simps) simp
      from "1.IH"(1) [OF True nc sn g gt] gt "1.prems"(2)
      obtain node'' idx' cm' where
        r: "scan fp f node' (sp' + 2) sp' (gain_at fp ?fl sp') = Inr (node'', idx', cm')"
        and fl'': "flowers_of node'' = flowers_of node'" and pos'': "position_of node'' = position_of node'"
        and d: "(idx' = sp' \<and> cm' = gain_at fp ?fl sp')
              \<or> (gain_at fp ?fl sp' < cm' \<and> 0 < idx' \<and> idx' < length (flowers_of node')
                 \<and> feature (flowers_of node' ! (idx' - 1)) f \<noteq> feature (flowers_of node' ! idx') f
                 \<and> cm' = gain_at fp (flowers_of node') idx')"
        by auto
      have "cm < cm' \<and> 0 < idx' \<and> idx' < length ?fl
           \<and> feature (?fl ! (idx' - 1)) f \<noteq> feature (?fl ! idx') f \<and> cm' = gain_at fp ?fl idx'"
        using d gt lt chg ge "1.prems"(1) unfolding fl' by auto
      then show ?thesis
        unfolding eq r using fl' fl'' pos' pos'' by simp
    next
      case ngt: False
      have eq: "scan fp f node sp idx cm = scan fp f node' (sp' + 2) idx cm"
        using True nc sn g ngt by (subst scan.simps) simp
      from "1.IH"(2) [OF True nc sn g ngt] "1.prems"(2)
      show ?thesis
        unfolding eq fl' pos' by simp
    qed
  qed
qed

lemma outcome_Inr: "outcome (Inr (node, v)) = Inr v"
  by (simp add: outcome_def)

lemma scan_keys:
  "0 < sp \<Longrightarrow> 0 \<le> cm \<Longrightarrow>
   map (\<lambda>x. feature x f) (flowers_of a) = map (\<lambda>x. feature x f) (flowers_of b) \<Longrightarrow>
   (\<And>i. 0 < i \<Longrightarrow> i \<le> length (flowers_of a) \<Longrightarrow>
      (i < length (flowers_of a) \<Longrightarrow>
         feature (flowers_of a ! (i - 1)) f \<noteq> feature (flowers_of a ! i) f) \<Longrightarrow>
      gain_at fp (flowers_of a) i = gain_at fp (flowers_of b) i) \<Longrightarrow>
   outcome (scan fp f a sp idx cm) = outcome (scan fp f b sp idx cm)"
proof (induction fp f a sp idx cm arbitrary: b rule: scan.induct)
  case (1 fp f a sp idx cm)
  let ?xs = "flowers_of a" and ?ys = "flowers_of b"
  have len: "length ?xs = length ?ys"
    using "1.prems"(3) by (metis length_map)
  show ?case
  proof (cases "sp < length ?xs")
    case False
    then show ?thesis
      using len by (simp add: scan.simps [of fp f a] scan.simps [of fp f b] outcome_Inr)
  next
    case True
    from next_change_props [of sp f ?xs] "1.prems"(1) True
    obtain sp' where nc: "next_change f ?xs sp = Inr sp'" and ge: "sp \<le> sp'" and le: "sp' \<le> length ?xs"
      and chg: "sp' < length ?xs \<longrightarrow> feature (?xs ! (sp' - 1)) f \<noteq> feature (?xs ! sp') f"
      by auto
    have nc': "next_change f ?ys sp = Inr sp'"
      using next_change_keys [OF "1.prems"(3) "1.prems"(1)] nc by simp
    obtain a' where sa: "split_node a sp' = Inr a'"
      using split_node_ok [OF le] by blast
    obtain b' where sb: "split_node b sp' = Inr b'"
      using split_node_ok [of sp' b] le len by auto
    have fa: "flowers_of a' = ?xs" and fb: "flowers_of b' = ?ys"
      using sa sb by (auto dest: split_node_flowers)
    have ga: "gain fp a' = Inr (gain_at fp ?xs sp')" and gb: "gain fp b' = Inr (gain_at fp ?ys sp')"
      using gain_split_node [OF sa] gain_split_node [OF sb] by auto
    have geq: "gain_at fp ?xs sp' = gain_at fp ?ys sp'"
      using "1.prems"(4) [of sp'] ge le chg "1.prems"(1) by auto
    show ?thesis
    proof (cases "gain_at fp ?xs sp' > cm")
      case gt: True
      have "outcome (scan fp f a' (sp' + 2) sp' (gain_at fp ?xs sp'))
          = outcome (scan fp f b' (sp' + 2) sp' (gain_at fp ?xs sp'))"
      proof (rule "1.IH"(1) [OF True nc sa ga gt, of b'])
        show "0 < sp' + 2" by simp
        show "0 \<le> gain_at fp ?xs sp'" using gt "1.prems"(2) by simp
        show "map (\<lambda>x. feature x f) (flowers_of a') = map (\<lambda>x. feature x f) (flowers_of b')"
          unfolding fa fb by (rule "1.prems"(3))
        show "gain_at fp (flowers_of a') i = gain_at fp (flowers_of b') i"
          if "0 < i" "i \<le> length (flowers_of a')"
            "i < length (flowers_of a') \<Longrightarrow>
               feature (flowers_of a' ! (i - 1)) f \<noteq> feature (flowers_of a' ! i) f" for i
          using that "1.prems"(4) [of i] unfolding fa fb by simp
      qed
      moreover have "scan fp f a sp idx cm = scan fp f a' (sp' + 2) sp' (gain_at fp ?xs sp')"
        using True nc sa ga gt by (subst scan.simps) simp
      moreover have "scan fp f b sp idx cm = scan fp f b' (sp' + 2) sp' (gain_at fp ?xs sp')"
        using True nc' sb gb gt len unfolding geq by (subst scan.simps) simp
      ultimately show ?thesis by simp
    next
      case ngt: False
      have "outcome (scan fp f a' (sp' + 2) idx cm) = outcome (scan fp f b' (sp' + 2) idx cm)"
      proof (rule "1.IH"(2) [OF True nc sa ga ngt, of b'])
        show "0 < sp' + 2" by simp
        show "0 \<le> cm" by (rule "1.prems"(2))
        show "map (\<lambda>x. feature x f) (flowers_of a') = map (\<lambda>x. feature x f) (flowers_of b')"
          unfolding fa fb by (rule "1.prems"(3))
        show "gain_at fp (flowers_of a') i = gain_at fp (flowers_of b') i"
          if "0 < i" "i \<le> length (flowers_of a')"
            "i < length (flowers_of a') \<Longrightarrow>
               feature (flowers_of a' ! (i - 1)) f \<noteq> feature (flowers_of a' ! i) f" for i
          using that "1.prems"(4) [of i] unfolding fa fb by simp
      qed
      moreover have "scan fp f a sp idx cm = scan fp f a' (sp' + 2) idx cm"
        using True nc sa ga ngt by (subst scan.simps) simp
      moreover have "scan fp f b sp idx cm = scan fp f b' (sp' + 2) idx cm"
        using True nc' sb gb ngt len unfolding geq by (subst scan.simps) simp
      ultimately show ?thesis by simp
    qed
  qed
qed

text \<open>A list sorted by a key and cut where the key changes.\<close>

lemma sorted_cut_take:
  assumes "sorted (map k xs)" "0 < i" "i < length xs" "k (xs ! (i - 1)) \<noteq> k (xs ! i)"
  shows "take i xs = filter (\<lambda>x. k x < k (xs ! i)) xs"
    and "drop i xs = filter (\<lambda>x. \<not> k x < k (xs ! i)) xs"
proof -
  have le: "k (xs ! (i - 1)) \<le> k (xs ! i)"
    using assms(1,2,3) sorted_nth_mono [of "map k xs" "i - 1" i] by simp
  with assms(4) have lt: "k (xs ! (i - 1)) < k (xs ! i)" by simp
  have low: "k x < k (xs ! i)" if "x \<in> set (take i xs)" for x
  proof -
    from that obtain j where j: "j < i" "x = xs ! j"
      using assms(3) by (auto simp: in_set_conv_nth)
    then have "k (xs ! j) \<le> k (xs ! (i - 1))"
      using assms(1,3) sorted_nth_mono [of "map k xs" j "i - 1"] by simp
    with lt j show ?thesis by simp
  qed
  have high: "\<not> k x < k (xs ! i)" if "x \<in> set (drop i xs)" for x
  proof -
    from that obtain j where "j < length (drop i xs)" "x = drop i xs ! j"
      by (metis in_set_conv_nth)
    then have j: "i + j < length xs" "x = xs ! (i + j)"
      by auto
    then have "k (xs ! i) \<le> k (xs ! (i + j))"
      using assms(1) sorted_nth_mono [of "map k xs" i "i + j"] by simp
    with j show ?thesis by simp
  qed
  have "filter (\<lambda>x. k x < k (xs ! i)) xs
      = filter (\<lambda>x. k x < k (xs ! i)) (take i xs) @ filter (\<lambda>x. k x < k (xs ! i)) (drop i xs)"
    by (metis append_take_drop_id filter_append)
  also have "\<dots> = take i xs"
    using low high by (simp add: filter_id_conv filter_empty_conv)
  finally show "take i xs = filter (\<lambda>x. k x < k (xs ! i)) xs" by simp
  have "filter (\<lambda>x. \<not> k x < k (xs ! i)) xs
      = filter (\<lambda>x. \<not> k x < k (xs ! i)) (take i xs) @ filter (\<lambda>x. \<not> k x < k (xs ! i)) (drop i xs)"
    by (metis append_take_drop_id filter_append)
  also have "\<dots> = drop i xs"
    using low high by (simp add: filter_id_conv filter_empty_conv)
  finally show "drop i xs = filter (\<lambda>x. \<not> k x < k (xs ! i)) xs" by simp
qed

lemma sorted_same_keys:
  assumes "sorted (map k xs)" "sorted (map k ys)" "mset xs = mset ys"
  shows "map k xs = map k ys"
proof -
  have "mset (map k xs) = mset (map k ys)"
    using assms(3) by (metis mset_map)
  then show ?thesis
    using assms(1,2) by (metis properties_for_sort)
qed

lemma gain_at_sorted_mset:
  fixes xs ys :: "Flower list"
  assumes "sorted (map k xs)" "sorted (map k ys)" "mset xs = mset ys"
    and "0 < i" "i \<le> length xs" "i < length xs \<Longrightarrow> k (xs ! (i - 1)) \<noteq> k (xs ! i)"
  shows "gain_at fp xs i = gain_at fp ys i"
proof (cases "i < length xs")
  case False
  have "length xs = length ys" using assms(3) by (metis size_mset)
  with False assms(5) show ?thesis by (simp add: gain_at_def total_of_Nil)
next
  case True
  have keys: "map k xs = map k ys" using assms(1,2,3) by (rule sorted_same_keys)
  have len: "length xs = length ys" using assms(3) by (metis size_mset)
  have ki: "k (ys ! i) = k (xs ! i)" and ki1: "k (ys ! (i - 1)) = k (xs ! (i - 1))"
    using keys True len by (metis nth_map less_imp_diff_less)+
  have ne: "k (xs ! (i - 1)) \<noteq> k (xs ! i)" using assms(6) True by simp
  have tx: "take i xs = filter (\<lambda>x. k x < k (xs ! i)) xs"
    and dx: "drop i xs = filter (\<lambda>x. \<not> k x < k (xs ! i)) xs"
    using sorted_cut_take [OF assms(1) assms(4) True ne] by auto
  have ty: "take i ys = filter (\<lambda>x. k x < k (xs ! i)) ys"
    and dy: "drop i ys = filter (\<lambda>x. \<not> k x < k (xs ! i)) ys"
    using sorted_cut_take [OF assms(2) assms(4), of ] True len ne ki ki1 by auto
  have mt: "mset (take i xs) = mset (take i ys)"
    unfolding tx ty using assms(3) by (metis mset_filter)
  have md: "mset (drop i xs) = mset (drop i ys)"
    unfolding dx dy using assms(3) by (metis mset_filter)
  show ?thesis
    unfolding gain_at_def
    using total_of_mset [OF mt] total_of_mset [OF md] total_of_mset [OF assms(3)]
      info_of_mset [OF mt] info_of_mset [OF md] info_of_mset [OF assms(3)]
    by simp
qed

section \<open>What \<open>max_gain\<close> returns\<close>

lemma sorted_by_props:
  "length (sorted_by f fls) = length fls" "mset (sorted_by f fls) = mset fls"
  "sorted (map (\<lambda>x. feature x f) (sorted_by f fls))"
  by (simp_all add: sorted_by_def)

lemma sort_flowers_by_sel:
  "flowers_of (sort_flowers_by f node) = sorted_by f (flowers_of node)"
  "position_of (sort_flowers_by f node) = position_of node"
  by (simp_all add: sort_flowers_by_def sorted_by_def)

lemma max_gain_short:
  assumes "length (flowers_of node) < 2"
  shows "max_gain fp f node = Inl OutOfBounds"
proof -
  let ?n = "sort_flowers_by f node"
  have len: "length (flowers_of ?n) < 2"
    using assms by (simp add: sort_flowers_by_sel sorted_by_props)
  then have sc: "scan fp f ?n 1 1 0 = Inr (?n, 1, 0)"
    by (subst scan.simps) auto
  show ?thesis
  proof (cases "flowers_of ?n = []")
    case True
    then show ?thesis
      unfolding max_gain_def sc by (simp add: split_node_def)
  next
    case False
    with len have "length (flowers_of ?n) = 1"
      by (cases "flowers_of ?n") auto
    then show ?thesis
      unfolding max_gain_def sc by (simp add: split_node_def vec_at_def)
  qed
qed

lemma max_gain_via_scan:
  assumes "2 \<le> length (flowers_of node)"
  shows "\<exists>node1 idx cm.
      scan fp f (sort_flowers_by f node) 1 1 0 = Inr (node1, idx, cm)
    \<and> max_gain fp f node =
        Inr (cm, Node (feature_name f)
                   (fdiv fp (fadd fp (feature (sorted_by f (flowers_of node) ! (idx - 1)) f)
                     (feature (sorted_by f (flowers_of node) ! idx) f)) 2)
                   (position_of node) (sorted_by f (flowers_of node))
                   (Some (new_Node (take idx (sorted_by f (flowers_of node))) (position_of node @ ''L'')))
                   (Some (new_Node (drop idx (sorted_by f (flowers_of node))) (position_of node @ ''R''))))
    \<and> 0 < idx \<and> idx < length (flowers_of node) \<and> 0 \<le> cm
    \<and> (0 < cm \<longrightarrow>
          feature (sorted_by f (flowers_of node) ! (idx - 1)) f
            < feature (sorted_by f (flowers_of node) ! idx) f
        \<and> cm = gain_at fp (sorted_by f (flowers_of node)) idx)"
proof -
  let ?n = "sort_flowers_by f node" and ?s = "sorted_by f (flowers_of node)"
  have fl: "flowers_of ?n = ?s" and pos: "position_of ?n = position_of node"
    by (simp_all add: sort_flowers_by_sel)
  have len: "length ?s = length (flowers_of node)"
    by (simp add: sorted_by_props)
  from scan_props [of 1 0 fp f ?n 1]
  obtain node1 idx cm where sc: "scan fp f ?n 1 1 0 = Inr (node1, idx, cm)"
    and fl1: "flowers_of node1 = ?s" and pos1: "position_of node1 = position_of node"
    and d: "(idx = 1 \<and> cm = 0)
          \<or> (0 < cm \<and> 0 < idx \<and> idx < length ?s
             \<and> feature (?s ! (idx - 1)) f \<noteq> feature (?s ! idx) f \<and> cm = gain_at fp ?s idx)"
    unfolding fl pos by auto
  have idx: "0 < idx" "idx < length ?s" and cm: "0 \<le> cm"
    using d assms len by auto
  have lt: "feature (?s ! (idx - 1)) f < feature (?s ! idx) f" and g: "cm = gain_at fp ?s idx" if "0 < cm"
  proof -
    from that d have ne: "feature (?s ! (idx - 1)) f \<noteq> feature (?s ! idx) f" and "cm = gain_at fp ?s idx"
      by auto
    then show "cm = gain_at fp ?s idx" by simp
    have "map (\<lambda>x. feature x f) ?s ! (idx - 1) \<le> map (\<lambda>x. feature x f) ?s ! idx"
      using idx by (intro sorted_nth_mono sorted_by_props) auto
    with ne idx show "feature (?s ! (idx - 1)) f < feature (?s ! idx) f" by simp
  qed
  have sn: "split_node node1 idx =
      Inr (Node (feature_of node1) (threshold_of node1) (position_of node) ?s
             (Some (new_Node (take idx ?s) (position_of node @ ''L'')))
             (Some (new_Node (drop idx ?s) (position_of node @ ''R''))))"
    using split_node_ok [of idx node1] idx unfolding fl1 pos1 by simp
  have mg: "max_gain fp f node =
        Inr (cm, Node (feature_name f) (fdiv fp (fadd fp (feature (?s ! (idx - 1)) f) (feature (?s ! idx) f)) 2)
                   (position_of node) ?s
                   (Some (new_Node (take idx ?s) (position_of node @ ''L'')))
                   (Some (new_Node (drop idx ?s) (position_of node @ ''R''))))"
    using idx unfolding max_gain_def sc by (simp add: sn vec_at_nat vec_at_pred)
  show ?thesis
    using sc mg idx cm lt g len by auto
qed

lemma best_gain_mset:
  assumes "mset (flowers_of a) = mset (flowers_of b)"
  shows "best_gain fp f a = best_gain fp f b"
proof (cases "2 \<le> length (flowers_of a)")
  case False
  moreover have len: "length (flowers_of a) = length (flowers_of b)"
    using assms by (metis size_mset)
  ultimately show ?thesis
    by (simp add: best_gain_def max_gain_short)
next
  case True
  have len: "length (flowers_of a) = length (flowers_of b)"
    using assms by (metis size_mset)
  let ?xs = "sorted_by f (flowers_of a)" and ?ys = "sorted_by f (flowers_of b)"
  from max_gain_via_scan [OF True, of fp f] obtain na ia ca where
    sa: "scan fp f (sort_flowers_by f a) 1 1 0 = Inr (na, ia, ca)" and ba: "best_gain fp f a = Inr ca"
    by (auto simp: best_gain_def)
  from max_gain_via_scan [of b fp f] True len obtain nb ib cb where
    sb: "scan fp f (sort_flowers_by f b) 1 1 0 = Inr (nb, ib, cb)" and bb: "best_gain fp f b = Inr cb"
    by (auto simp: best_gain_def)
  have ms: "mset ?xs = mset ?ys"
    using assms by (simp add: sorted_by_props)
  have "outcome (scan fp f (sort_flowers_by f a) 1 1 0) = outcome (scan fp f (sort_flowers_by f b) 1 1 0)"
  proof (rule scan_keys)
    show "map (\<lambda>x. feature x f) (flowers_of (sort_flowers_by f a))
        = map (\<lambda>x. feature x f) (flowers_of (sort_flowers_by f b))"
      unfolding sort_flowers_by_sel
      by (rule sorted_same_keys [OF sorted_by_props(3) sorted_by_props(3) ms])
    show "gain_at fp (flowers_of (sort_flowers_by f a)) i = gain_at fp (flowers_of (sort_flowers_by f b)) i"
      if "0 < i" "i \<le> length (flowers_of (sort_flowers_by f a))"
        "i < length (flowers_of (sort_flowers_by f a)) \<Longrightarrow>
           feature (flowers_of (sort_flowers_by f a) ! (i - 1)) f
             \<noteq> feature (flowers_of (sort_flowers_by f a) ! i) f" for i
      using that unfolding sort_flowers_by_sel
      by (intro gain_at_sorted_mset [where k = "\<lambda>x. feature x f"] sorted_by_props(3) ms) auto
  qed simp_all
  then have "ca = cb"
    unfolding sa sb by (simp add: outcome_Inr)
  with ba bb show ?thesis by simp
qed

section \<open>The purity loop\<close>

lemma same_class_loop_empty:
  "flowers_of node = [] \<Longrightarrow>
   same_class_loop md node 0 = (if md = int (length (position_of node)) then Inr True else Inl OutOfBounds)"
  by (subst same_class_loop.simps) (simp add: size_minus_1_def vec_at_def)

lemma same_class_loop_eval:
  "i < length (flowers_of node) \<Longrightarrow>
   same_class_loop md node i =
     Inr (md = int (length (position_of node))
          \<or> (\<forall>j. i \<le> j \<and> j + 1 < length (flowers_of node) \<longrightarrow>
                 get_class (flowers_of node ! j) = get_class (flowers_of node ! (j + 1))))"
proof (induction md node i rule: same_class_loop.induct)
  case (1 md node i)
  let ?fl = "flowers_of node"
  have sz: "size_minus_1 ?fl = int (length ?fl) - 1"
    using "1.prems" by (auto simp: size_minus_1_def)
  show ?case
  proof (cases "i + 1 < length ?fl")
    case False
    with "1.prems" have "int i = size_minus_1 ?fl" unfolding sz by simp
    moreover have "\<forall>j. i \<le> j \<and> j + 1 < length ?fl \<longrightarrow> get_class (?fl ! j) = get_class (?fl ! (j + 1))"
      using False by auto
    ultimately show ?thesis by (subst same_class_loop.simps) simp
  next
    case True
    have ne: "int i \<noteq> size_minus_1 ?fl" "int i \<le> size_minus_1 ?fl"
      using True unfolding sz by auto
    have x: "vec_at ?fl (int i) = Inr (?fl ! i)" and y: "vec_at ?fl (int i + 1) = Inr (?fl ! (i + 1))"
      using True by (auto simp: vec_at_def nat_add_distrib)
    show ?thesis
    proof (cases "md = int (length (position_of node))")
      case d: True
      then show ?thesis using ne by (subst same_class_loop.simps) simp
    next
      case d: False
      show ?thesis
      proof (cases "get_class (?fl ! i) = get_class (?fl ! (i + 1))")
        case eq: False
        have "same_class_loop md node i = Inr False"
          using ne d eq x y by (subst same_class_loop.simps) simp
        moreover have "\<not> (\<forall>j. i \<le> j \<and> j + 1 < length ?fl \<longrightarrow> get_class (?fl ! j) = get_class (?fl ! (j + 1)))"
          using eq True by auto
        ultimately show ?thesis using d by simp
      next
        case eq: True
        have ih: "same_class_loop md node (i + 1) =
            Inr (md = int (length (position_of node))
              \<or> (\<forall>j. i + 1 \<le> j \<and> j + 1 < length ?fl \<longrightarrow> get_class (?fl ! j) = get_class (?fl ! (j + 1))))"
          using "1.IH" [of "?fl ! i" "?fl ! (i + 1)"] ne d eq x y True by simp
        have step: "same_class_loop md node i = same_class_loop md node (i + 1)"
          using ne d eq x y by (subst same_class_loop.simps) simp
        have "(\<forall>j. i \<le> j \<and> j + 1 < length ?fl \<longrightarrow> get_class (?fl ! j) = get_class (?fl ! (j + 1)))
            \<longleftrightarrow> (\<forall>j. i + 1 \<le> j \<and> j + 1 < length ?fl \<longrightarrow> get_class (?fl ! j) = get_class (?fl ! (j + 1)))"
          using eq by (metis Suc_eq_plus1 Suc_leI le_neq_implies_less Suc_leD)
        then show ?thesis unfolding step ih by simp
      qed
    qed
  qed
qed

lemma adjacent_same_class:
  "(\<forall>j. j + 1 < length fls \<longrightarrow> get_class (fls ! j) = get_class (fls ! (j + 1))) \<longleftrightarrow> same_class fls"
proof
  assume adj: "\<forall>j. j + 1 < length fls \<longrightarrow> get_class (fls ! j) = get_class (fls ! (j + 1))"
  have first: "j < length fls \<Longrightarrow> get_class (fls ! j) = get_class (fls ! 0)" for j
  proof (induction j)
    case 0
    show ?case by simp
  next
    case (Suc j)
    then show ?case using adj by (metis Suc_eq_plus1 Suc_lessD)
  qed
  show "same_class fls"
    unfolding same_class_def by (metis first in_set_conv_nth)
next
  assume "same_class fls"
  then show "\<forall>j. j + 1 < length fls \<longrightarrow> get_class (fls ! j) = get_class (fls ! (j + 1))"
    unfolding same_class_def by (metis Suc_eq_plus1 Suc_lessD nth_mem)
qed

lemma same_class_loop_nonempty:
  assumes "flowers_of node \<noteq> []"
  shows "same_class_loop md node 0 =
    Inr (md = int (length (position_of node)) \<or> same_class (flowers_of node))"
  using same_class_loop_eval [of 0 node md] assms adjacent_same_class [of "flowers_of node"]
  by simp

lemma same_class_mset: "mset xs = mset ys \<Longrightarrow> same_class xs = same_class ys"
  unfolding same_class_def by (metis set_mset_mset)

lemma same_class_short: "length fls < 2 \<Longrightarrow> same_class fls"
  by (cases fls) (auto simp: same_class_def)

section \<open>One call of \<open>build_tree\<close>\<close>

lemma searched_props: "mset (searched fls) = mset fls" "length (searched fls) = length fls"
  by (simp_all add: searched_def sorted_by_props)

lemma make_leaf_eq: "make_leaf u node = leaf_of u (position_of node) (flowers_of node)"
  by (simp add: make_leaf_def count_class_cnt leaf_of_def)

lemma leaf_of_mset: "mset xs = mset ys \<Longrightarrow> feature_of (leaf_of u pos xs) = feature_of (leaf_of u pos ys)"
  by (simp add: leaf_of_def cnt_mset [of xs ys])

lemma max_gain_ok:
  assumes "2 \<le> length (flowers_of node)"
  shows "\<exists>g i. max_gain fp f node =
        Inr (g, Node (feature_name f) (midpoint_at fp f (sorted_by f (flowers_of node)) i)
                  (position_of node) (sorted_by f (flowers_of node))
                  (Some (new_Node (take i (sorted_by f (flowers_of node))) (position_of node @ ''L'')))
                  (Some (new_Node (drop i (sorted_by f (flowers_of node))) (position_of node @ ''R''))))
    \<and> best_gain fp f node = Inr g \<and> 0 < i \<and> i < length (flowers_of node) \<and> 0 \<le> g
    \<and> (0 < g \<longrightarrow>
          feature (sorted_by f (flowers_of node) ! (i - 1)) f < feature (sorted_by f (flowers_of node) ! i) f
        \<and> g = gain_at fp (sorted_by f (flowers_of node)) i)"
proof -
  from max_gain_via_scan [OF assms, of fp f] obtain node1 idx cm where
    mg: "max_gain fp f node =
        Inr (cm, Node (feature_name f)
                   (fdiv fp (fadd fp (feature (sorted_by f (flowers_of node) ! (idx - 1)) f)
                     (feature (sorted_by f (flowers_of node) ! idx) f)) 2)
                   (position_of node) (sorted_by f (flowers_of node))
                   (Some (new_Node (take idx (sorted_by f (flowers_of node))) (position_of node @ ''L'')))
                   (Some (new_Node (drop idx (sorted_by f (flowers_of node))) (position_of node @ ''R''))))"
    and rest: "0 < idx" "idx < length (flowers_of node)" "0 \<le> cm"
      "0 < cm \<longrightarrow>
          feature (sorted_by f (flowers_of node) ! (idx - 1)) f
            < feature (sorted_by f (flowers_of node) ! idx) f
        \<and> cm = gain_at fp (sorted_by f (flowers_of node)) idx"
    by blast
  have "best_gain fp f node = Inr cm"
    by (simp add: best_gain_def mg)
  with mg rest show ?thesis
    unfolding midpoint_at_def by blast
qed

lemma build_tree_leaf:
  assumes "flowers_of node \<noteq> []"
    and "md = int (length (position_of node)) \<or> same_class (flowers_of node)"
  shows "build_tree fp md ent node k = Inr (leaf_of (ent k) (position_of node) (flowers_of node), k + 1)"
  using assms by (subst build_tree.simps) (auto simp: same_class_loop_nonempty make_leaf_eq)

lemma build_tree_empty:
  assumes "flowers_of node = []"
  shows "build_tree fp md ent node k =
    (if md = int (length (position_of node))
     then Inr (leaf_of (ent k) (position_of node) [], k + 1) else Inl OutOfBounds)"
  using assms by (subst build_tree.simps) (simp add: same_class_loop_empty make_leaf_eq)

lemma build_tree_search:
  assumes ns: "\<not> same_class (flowers_of node)" and nd: "md \<noteq> int (length (position_of node))"
  shows "\<exists>gSL gSW gPL gPW.
      best_gain fp SL node = Inr gSL \<and> best_gain fp SW node = Inr gSW
    \<and> best_gain fp PL node = Inr gPL \<and> best_gain fp PW node = Inr gPW
    \<and> 0 \<le> gSL \<and> 0 \<le> gSW \<and> 0 \<le> gPL \<and> 0 \<le> gPW
    \<and> (if gSL = 0 \<and> gSW = 0 \<and> gPL = 0 \<and> gPW = 0
       then build_tree fp md ent node k =
              Inr (leaf_of (ent k) (position_of node) (searched (flowers_of node)), k + 1)
       else \<exists>i. 0 < i \<and> i < length (flowers_of node)
             \<and> feature (sorted_by (best_feature gSL gSW gPL gPW) (searched (flowers_of node)) ! (i - 1))
                   (best_feature gSL gSW gPL gPW)
                 < feature (sorted_by (best_feature gSL gSW gPL gPW) (searched (flowers_of node)) ! i)
                     (best_feature gSL gSW gPL gPW)
             \<and> best_gain fp (best_feature gSL gSW gPL gPW) node
                 = Inr (gain_at fp (sorted_by (best_feature gSL gSW gPL gPW) (searched (flowers_of node))) i)
             \<and> 0 < gain_at fp (sorted_by (best_feature gSL gSW gPL gPW) (searched (flowers_of node))) i
             \<and> build_tree fp md ent node k =
                 (case build_tree fp md ent
                         (new_Node (take i (sorted_by (best_feature gSL gSW gPL gPW) (searched (flowers_of node))))
                            (position_of node @ ''L'')) k
                  of Inl e \<Rightarrow> Inl e | Inr (l', k1) \<Rightarrow>
                 (case build_tree fp md ent
                         (new_Node (drop i (sorted_by (best_feature gSL gSW gPL gPW) (searched (flowers_of node))))
                            (position_of node @ ''R'')) k1
                  of Inl e \<Rightarrow> Inl e | Inr (r', k2) \<Rightarrow>
                    Inr (Node (feature_name (best_feature gSL gSW gPL gPW))
                           (midpoint_at fp (best_feature gSL gSW gPL gPW)
                              (sorted_by (best_feature gSL gSW gPL gPW) (searched (flowers_of node))) i)
                           (position_of node)
                           (sorted_by (best_feature gSL gSW gPL gPW) (searched (flowers_of node)))
                           (Some l') (Some r'), k2))))"
    (is "\<exists>gSL gSW gPL gPW. ?P gSL gSW gPL gPW")
proof -
  let ?fl = "flowers_of node" and ?pos = "position_of node"
  have ne: "?fl \<noteq> []" using ns by (auto simp: same_class_def)
  have len: "2 \<le> length ?fl"
    using ns same_class_short [of ?fl] by (cases "2 \<le> length ?fl") auto
  have scl: "same_class_loop md node 0 = Inr False"
    using ns nd by (simp add: same_class_loop_nonempty [OF ne])
  from max_gain_ok [OF len, of fp SL] obtain gSL n1 where
    m1: "max_gain fp SL node = Inr (gSL, n1)" and b1: "best_gain fp SL node = Inr gSL" and p1: "0 \<le> gSL"
    and f1: "flowers_of n1 = sorted_by SL ?fl" and q1: "position_of n1 = ?pos"
    by auto
  have len1: "2 \<le> length (flowers_of n1)" using len f1 by (simp add: sorted_by_props)
  from max_gain_ok [OF len1, of fp SW] obtain gSW n2 where
    m2: "max_gain fp SW n1 = Inr (gSW, n2)" and b2: "best_gain fp SW n1 = Inr gSW" and p2: "0 \<le> gSW"
    and f2: "flowers_of n2 = sorted_by SW (flowers_of n1)" and q2: "position_of n2 = position_of n1"
    by auto
  have len2: "2 \<le> length (flowers_of n2)" using len1 f2 by (simp add: sorted_by_props)
  from max_gain_ok [OF len2, of fp PL] obtain gPL n3 where
    m3: "max_gain fp PL n2 = Inr (gPL, n3)" and b3: "best_gain fp PL n2 = Inr gPL" and p3: "0 \<le> gPL"
    and f3: "flowers_of n3 = sorted_by PL (flowers_of n2)" and q3: "position_of n3 = position_of n2"
    by auto
  have len3: "2 \<le> length (flowers_of n3)" using len2 f3 by (simp add: sorted_by_props)
  from max_gain_ok [OF len3, of fp PW] obtain gPW n4 where
    m4: "max_gain fp PW n3 = Inr (gPW, n4)" and b4: "best_gain fp PW n3 = Inr gPW" and p4: "0 \<le> gPW"
    and f4: "flowers_of n4 = sorted_by PW (flowers_of n3)" and q4: "position_of n4 = position_of n3"
    by auto
  have fl4: "flowers_of n4 = searched ?fl" and pos4: "position_of n4 = ?pos"
    by (simp_all add: searched_def f1 f2 f3 f4 q1 q2 q3 q4)
  have ms1: "mset (flowers_of n1) = mset ?fl" and ms2: "mset (flowers_of n2) = mset ?fl"
    and ms3: "mset (flowers_of n3) = mset ?fl" and ms4: "mset (flowers_of n4) = mset ?fl"
    by (simp_all add: f1 f2 f3 f4 sorted_by_props)
  have b2': "best_gain fp SW node = Inr gSW" using b2 best_gain_mset [OF ms1, of fp SW] by simp
  have b3': "best_gain fp PL node = Inr gPL" using b3 best_gain_mset [OF ms2, of fp PL] by simp
  have b4': "best_gain fp PW node = Inr gPW" using b4 best_gain_mset [OF ms3, of fp PW] by simp
  let ?f = "best_feature gSL gSW gPL gPW"
  let ?s = "sorted_by ?f (searched ?fl)"
  show ?thesis
  proof (cases "gSL = 0 \<and> gSW = 0 \<and> gPL = 0 \<and> gPW = 0")
    case True
    have "build_tree fp md ent node k = Inr (make_leaf (ent k) n4, k + 1)"
      using True by (subst build_tree.simps) (simp add: scl m1 m2 m3 m4)
    then have "build_tree fp md ent node k = Inr (leaf_of (ent k) ?pos (searched ?fl), k + 1)"
      by (simp add: make_leaf_eq fl4 pos4)
    with True b1 b2' b3' b4' p1 p2 p3 p4 have "?P gSL gSW gPL gPW" by simp
    then show ?thesis by blast
  next
    case False
    have len4: "2 \<le> length (flowers_of n4)" using len fl4 by (simp add: searched_props)
    from max_gain_ok [OF len4, of fp ?f] obtain g i where
      m5: "max_gain fp ?f n4 =
        Inr (g, Node (feature_name ?f) (midpoint_at fp ?f ?s i) ?pos ?s
                  (Some (new_Node (take i ?s) (?pos @ ''L'')))
                  (Some (new_Node (drop i ?s) (?pos @ ''R''))))"
      and b5: "best_gain fp ?f n4 = Inr g" and i: "0 < i" "i < length ?fl"
      and pos: "0 < g \<longrightarrow> feature (?s ! (i - 1)) ?f < feature (?s ! i) ?f \<and> g = gain_at fp ?s i"
      unfolding fl4 pos4 by (auto simp: searched_props)
    have b5': "best_gain fp ?f node = Inr g" using b5 best_gain_mset [OF ms4, of fp ?f] by simp
    have the_gain: "g = (case ?f of SL \<Rightarrow> gSL | SW \<Rightarrow> gSW | PL \<Rightarrow> gPL | PW \<Rightarrow> gPW)"
      using b5' b1 b2' b3' b4' by (cases ?f) auto
    have "0 < g"
      using False p1 p2 p3 p4 unfolding the_gain best_feature_def by (auto split: if_splits)
    with pos have lt: "feature (?s ! (i - 1)) ?f < feature (?s ! i) ?f" and g: "g = gain_at fp ?s i"
      by auto
    have bt: "build_tree fp md ent node k =
        (case build_tree fp md ent (new_Node (take i ?s) (?pos @ ''L'')) k
         of Inl e \<Rightarrow> Inl e | Inr (l', k1) \<Rightarrow>
        (case build_tree fp md ent (new_Node (drop i ?s) (?pos @ ''R'')) k1
         of Inl e \<Rightarrow> Inl e | Inr (r', k2) \<Rightarrow>
           Inr (Node (feature_name ?f) (midpoint_at fp ?f ?s i) ?pos ?s (Some l') (Some r'), k2)))"
    proof -
      have nz: "(gSL = 0 \<and> gSW = 0 \<and> gPL = 0 \<and> gPW = 0) = False"
        using False by simp
      show ?thesis
        by (subst build_tree.simps)
           (simp add: scl m1 m2 m3 m4 m5 nz cong: sum.case_cong split: prod.split)
    qed
    have "\<exists>i. 0 < i \<and> i < length ?fl \<and> feature (?s ! (i - 1)) ?f < feature (?s ! i) ?f
           \<and> best_gain fp ?f node = Inr (gain_at fp ?s i) \<and> 0 < gain_at fp ?s i
           \<and> build_tree fp md ent node k =
             (case build_tree fp md ent (new_Node (take i ?s) (?pos @ ''L'')) k
              of Inl e \<Rightarrow> Inl e | Inr (l', k1) \<Rightarrow>
             (case build_tree fp md ent (new_Node (drop i ?s) (?pos @ ''R'')) k1
              of Inl e \<Rightarrow> Inl e | Inr (r', k2) \<Rightarrow>
                Inr (Node (feature_name ?f) (midpoint_at fp ?f ?s i) ?pos ?s (Some l') (Some r'), k2)))"
      using i lt b5' g \<open>0 < g\<close> bt by blast
    with False b1 b2' b3' b4' p1 p2 p3 p4 have "?P gSL gSW gPL gPW"
      by (simp only: if_not_P simp_thms)
    then show ?thesis by blast
  qed
qed

text \<open>
  The rule by which properties of the finished tree are proved: a call on a non-empty
  partition returns a leaf, or it returns an internal node over two calls on smaller
  non-empty partitions.
\<close>

lemma build_tree_rule:
  assumes ne: "flowers_of node \<noteq> []"
    and leaf: "\<And>node k fls.
      flowers_of node \<noteq> [] \<Longrightarrow> mset fls = mset (flowers_of node) \<Longrightarrow>
      md = int (length (position_of node)) \<or> same_class (flowers_of node)
        \<or> (\<forall>f. best_gain fp f node = Inr 0) \<Longrightarrow>
      build_tree fp md ent node k = Inr (leaf_of (ent k) (position_of node) fls, k + 1) \<Longrightarrow>
      P node k (leaf_of (ent k) (position_of node) fls) (k + 1)"
    and split: "\<And>node k gSL gSW gPL gPW f s i l' r' k1 k2.
      md \<noteq> int (length (position_of node)) \<Longrightarrow> \<not> same_class (flowers_of node) \<Longrightarrow>
      best_gain fp SL node = Inr gSL \<Longrightarrow> best_gain fp SW node = Inr gSW \<Longrightarrow>
      best_gain fp PL node = Inr gPL \<Longrightarrow> best_gain fp PW node = Inr gPW \<Longrightarrow>
      \<not> (gSL = 0 \<and> gSW = 0 \<and> gPL = 0 \<and> gPW = 0) \<Longrightarrow>
      f = best_feature gSL gSW gPL gPW \<Longrightarrow> s = sorted_by f (searched (flowers_of node)) \<Longrightarrow>
      0 < i \<Longrightarrow> i < length (flowers_of node) \<Longrightarrow>
      feature (s ! (i - 1)) f < feature (s ! i) f \<Longrightarrow>
      best_gain fp f node = Inr (gain_at fp s i) \<Longrightarrow> 0 < gain_at fp s i \<Longrightarrow>
      build_tree fp md ent (new_Node (take i s) (position_of node @ ''L'')) k = Inr (l', k1) \<Longrightarrow>
      P (new_Node (take i s) (position_of node @ ''L'')) k l' k1 \<Longrightarrow>
      build_tree fp md ent (new_Node (drop i s) (position_of node @ ''R'')) k1 = Inr (r', k2) \<Longrightarrow>
      P (new_Node (drop i s) (position_of node @ ''R'')) k1 r' k2 \<Longrightarrow>
      build_tree fp md ent node k =
        Inr (Node (feature_name f) (midpoint_at fp f s i) (position_of node) s (Some l') (Some r'), k2) \<Longrightarrow>
      P node k (Node (feature_name f) (midpoint_at fp f s i) (position_of node) s (Some l') (Some r')) k2"
  shows "\<exists>t k'. build_tree fp md ent node k = Inr (t, k') \<and> P node k t k'"
  using ne
proof (induction "length (flowers_of node)" arbitrary: node k rule: less_induct)
  case less
  let ?fl = "flowers_of node" and ?pos = "position_of node"
  show ?case
  proof (cases "md = int (length ?pos) \<or> same_class ?fl")
    case True
    have bt: "build_tree fp md ent node k = Inr (leaf_of (ent k) ?pos ?fl, k + 1)"
      using build_tree_leaf [OF less.prems True] .
    have "P node k (leaf_of (ent k) ?pos ?fl) (k + 1)"
      using leaf [OF less.prems _ _ bt] True by auto
    with bt show ?thesis by blast
  next
    case False
    then have nd: "md \<noteq> int (length ?pos)" and ns: "\<not> same_class ?fl" by auto
    from build_tree_search [OF ns nd, of fp ent k] obtain gSL gSW gPL gPW where
      b: "best_gain fp SL node = Inr gSL" "best_gain fp SW node = Inr gSW"
         "best_gain fp PL node = Inr gPL" "best_gain fp PW node = Inr gPW"
      and body: "if gSL = 0 \<and> gSW = 0 \<and> gPL = 0 \<and> gPW = 0
       then build_tree fp md ent node k = Inr (leaf_of (ent k) ?pos (searched ?fl), k + 1)
       else \<exists>i. 0 < i \<and> i < length ?fl
             \<and> feature (sorted_by (best_feature gSL gSW gPL gPW) (searched ?fl) ! (i - 1))
                   (best_feature gSL gSW gPL gPW)
                 < feature (sorted_by (best_feature gSL gSW gPL gPW) (searched ?fl) ! i)
                     (best_feature gSL gSW gPL gPW)
             \<and> best_gain fp (best_feature gSL gSW gPL gPW) node
                 = Inr (gain_at fp (sorted_by (best_feature gSL gSW gPL gPW) (searched ?fl)) i)
             \<and> 0 < gain_at fp (sorted_by (best_feature gSL gSW gPL gPW) (searched ?fl)) i
             \<and> build_tree fp md ent node k =
                 (case build_tree fp md ent
                         (new_Node (take i (sorted_by (best_feature gSL gSW gPL gPW) (searched ?fl)))
                            (?pos @ ''L'')) k
                  of Inl e \<Rightarrow> Inl e | Inr (l', k1) \<Rightarrow>
                 (case build_tree fp md ent
                         (new_Node (drop i (sorted_by (best_feature gSL gSW gPL gPW) (searched ?fl)))
                            (?pos @ ''R'')) k1
                  of Inl e \<Rightarrow> Inl e | Inr (r', k2) \<Rightarrow>
                    Inr (Node (feature_name (best_feature gSL gSW gPL gPW))
                           (midpoint_at fp (best_feature gSL gSW gPL gPW)
                              (sorted_by (best_feature gSL gSW gPL gPW) (searched ?fl)) i)
                           ?pos (sorted_by (best_feature gSL gSW gPL gPW) (searched ?fl))
                           (Some l') (Some r'), k2)))"
      by blast
    show ?thesis
    proof (cases "gSL = 0 \<and> gSW = 0 \<and> gPL = 0 \<and> gPW = 0")
      case z: True
      with body have bt: "build_tree fp md ent node k = Inr (leaf_of (ent k) ?pos (searched ?fl), k + 1)"
        by simp
      have allz: "\<forall>f. best_gain fp f node = Inr 0"
      proof
        fix f show "best_gain fp f node = Inr 0" using b z by (cases f) auto
      qed
      have "P node k (leaf_of (ent k) ?pos (searched ?fl)) (k + 1)"
        using leaf [OF less.prems _ _ bt] allz by (simp add: searched_props)
      with bt show ?thesis by blast
    next
      case nz: False
      define f where "f = best_feature gSL gSW gPL gPW"
      define s where "s = sorted_by f (searched ?fl)"
      have "\<exists>i. 0 < i \<and> i < length ?fl \<and> feature (s ! (i - 1)) f < feature (s ! i) f
             \<and> best_gain fp f node = Inr (gain_at fp s i) \<and> 0 < gain_at fp s i
             \<and> build_tree fp md ent node k =
                 (case build_tree fp md ent (new_Node (take i s) (?pos @ ''L'')) k
                  of Inl e \<Rightarrow> Inl e | Inr (l', k1) \<Rightarrow>
                 (case build_tree fp md ent (new_Node (drop i s) (?pos @ ''R'')) k1
                  of Inl e \<Rightarrow> Inl e | Inr (r', k2) \<Rightarrow>
                    Inr (Node (feature_name f) (midpoint_at fp f s i) ?pos s (Some l') (Some r'), k2)))"
        unfolding f_def s_def using body nz by (simp only: if_not_P if_False)
      then obtain i where all: "0 < i \<and> i < length ?fl \<and> feature (s ! (i - 1)) f < feature (s ! i) f
             \<and> best_gain fp f node = Inr (gain_at fp s i) \<and> 0 < gain_at fp s i
             \<and> build_tree fp md ent node k =
                 (case build_tree fp md ent (new_Node (take i s) (?pos @ ''L'')) k
                  of Inl e \<Rightarrow> Inl e | Inr (l', k1) \<Rightarrow>
                 (case build_tree fp md ent (new_Node (drop i s) (?pos @ ''R'')) k1
                  of Inl e \<Rightarrow> Inl e | Inr (r', k2) \<Rightarrow>
                    Inr (Node (feature_name f) (midpoint_at fp f s i) ?pos s (Some l') (Some r'), k2)))" ..
      then have i: "0 < i" "i < length ?fl"
        and lt: "feature (s ! (i - 1)) f < feature (s ! i) f"
        and bg: "best_gain fp f node = Inr (gain_at fp s i)" and gp: "0 < gain_at fp s i"
        and bt: "build_tree fp md ent node k =
                 (case build_tree fp md ent (new_Node (take i s) (?pos @ ''L'')) k
                  of Inl e \<Rightarrow> Inl e | Inr (l', k1) \<Rightarrow>
                 (case build_tree fp md ent (new_Node (drop i s) (?pos @ ''R'')) k1
                  of Inl e \<Rightarrow> Inl e | Inr (r', k2) \<Rightarrow>
                    Inr (Node (feature_name f) (midpoint_at fp f s i) ?pos s (Some l') (Some r'), k2)))"
        by simp_all
      have ls: "length s = length ?fl"
        by (simp add: s_def sorted_by_props searched_props)
      let ?l = "new_Node (take i s) (?pos @ ''L'')" and ?r = "new_Node (drop i s) (?pos @ ''R'')"
      have fl_l: "flowers_of ?l = take i s" and fl_r: "flowers_of ?r = drop i s"
        by (simp_all add: new_Node_def)
      have "length (flowers_of ?l) < length ?fl" "flowers_of ?l \<noteq> []"
        using i ls unfolding fl_l by auto
      from less.hyps [OF this] obtain l' k1 where
        bl: "build_tree fp md ent ?l k = Inr (l', k1)" and pl: "P ?l k l' k1"
        by blast
      have "length (flowers_of ?r) < length ?fl" "flowers_of ?r \<noteq> []"
        using i ls unfolding fl_r by auto
      from less.hyps [OF this] obtain r' k2 where
        br: "build_tree fp md ent ?r k1 = Inr (r', k2)" and pr: "P ?r k1 r' k2"
        by blast
      have bt': "build_tree fp md ent node k =
          Inr (Node (feature_name f) (midpoint_at fp f s i) ?pos s (Some l') (Some r'), k2)"
        unfolding bt bl by (simp add: br)
      have "P node k (Node (feature_name f) (midpoint_at fp f s i) ?pos s (Some l') (Some r')) k2"
        using split [OF nd ns b nz f_def s_def i lt bg gp bl pl br pr bt'] .
      with bt' show ?thesis by blast
    qed
  qed
qed

lemma build_tree_frame:
  assumes "flowers_of node \<noteq> []"
  shows "\<exists>t k'. build_tree fp md ent node k = Inr (t, k')
    \<and> position_of t = position_of node \<and> mset (flowers_of t) = mset (flowers_of node)"
  using assms
proof (rule build_tree_rule)
  fix node k fls
  assume "mset fls = mset (flowers_of node)"
  then show "position_of (leaf_of (ent k) (position_of node) fls) = position_of node
    \<and> mset (flowers_of (leaf_of (ent k) (position_of node) fls)) = mset (flowers_of node)"
    by (simp add: leaf_of_def)
next
  fix node k f s i l' r'
  assume "s = sorted_by f (searched (flowers_of node))"
  then show "position_of (Node (feature_name f) (midpoint_at fp f s i) (position_of node) s (Some l') (Some r'))
      = position_of node
    \<and> mset (flowers_of (Node (feature_name f) (midpoint_at fp f s i) (position_of node) s (Some l') (Some r')))
      = mset (flowers_of node)"
    by (simp add: sorted_by_props searched_props)
qed

lemma build_tree_frame_Inr:
  assumes "build_tree fp md ent node k = Inr (t, k')"
  shows "position_of t = position_of node" "mset (flowers_of t) = mset (flowers_of node)"
proof -
  have "position_of t = position_of node \<and> mset (flowers_of t) = mset (flowers_of node)"
  proof (cases "flowers_of node = []")
    case True
    with assms show ?thesis
      by (auto simp: build_tree_empty leaf_of_def split: if_splits)
  next
    case False
    from build_tree_frame [OF False, of fp md ent k] assms show ?thesis by auto
  qed
  then show "position_of t = position_of node" "mset (flowers_of t) = mset (flowers_of node)"
    by simp_all
qed

section \<open>Invariants of the finished tree\<close>

lemma nodes_of_self: "t \<in> set (nodes_of t)"
  by (cases t) simp

lemma nodes_of_Node:
  "set (nodes_of (Node ft th pos fls (Some l) (Some r)))
     = insert (Node ft th pos fls (Some l) (Some r)) (set (nodes_of l) \<union> set (nodes_of r))"
  "set (nodes_of (Node ft th pos fls None None)) = {Node ft th pos fls None None}"
  by simp_all

lemma sorted_take_le:
  assumes "sorted (map k xs)" "0 < i" "i < length xs" "x \<in> set (take i xs)"
  shows "k x \<le> k (xs ! (i - 1))"
proof -
  from assms(4) obtain j where "j < length (take i xs)" "x = take i xs ! j"
    by (metis in_set_conv_nth)
  then have j: "j < i" "x = xs ! j" using assms(3) by auto
  then have "map k xs ! j \<le> map k xs ! (i - 1)"
    using assms(1,3) by (intro sorted_nth_mono) auto
  with j assms(3) show ?thesis by simp
qed

lemma sorted_drop_ge:
  assumes "sorted (map k xs)" "i < length xs" "x \<in> set (drop i xs)"
  shows "k (xs ! i) \<le> k x"
proof -
  from assms(3) obtain j where "j < length (drop i xs)" "x = drop i xs ! j"
    by (metis in_set_conv_nth)
  then have j: "i + j < length xs" "x = xs ! (i + j)" by auto
  then have "map k xs ! i \<le> map k xs ! (i + j)"
    using assms(1) by (intro sorted_nth_mono) auto
  with j assms(2) show ?thesis by simp
qed

lemma exact_split_union:
  "exact_split fp n l r \<Longrightarrow> mset (flowers_of l) + mset (flowers_of r) = mset (flowers_of n)"
  unfolding exact_split_def by (metis append_take_drop_id mset_append)

lemma build_tree_exact:
  assumes "flowers_of node \<noteq> []"
  shows "\<exists>t k'. build_tree fp md ent node k = Inr (t, k')
    \<and> (mset (flowers_of t) = mset (flowers_of node)
      \<and> (\<forall>n \<in> set (nodes_of t). \<forall>l r. left_of n = Some l \<and> right_of n = Some r \<longrightarrow> exact_split fp n l r))"
  using assms
proof (rule build_tree_rule)
  fix node k fls
  assume "mset fls = mset (flowers_of node)"
  then show "mset (flowers_of (leaf_of (ent k) (position_of node) fls)) = mset (flowers_of node)
    \<and> (\<forall>n \<in> set (nodes_of (leaf_of (ent k) (position_of node) fls)).
          \<forall>l r. left_of n = Some l \<and> right_of n = Some r \<longrightarrow> exact_split fp n l r)"
    by (simp add: leaf_of_def)
next
  fix node k gSL gSW gPL gPW f s i l' r' k1 k2
  assume s: "s = sorted_by f (searched (flowers_of node))"
    and i: "0 < i" "i < length (flowers_of node)"
    and lt: "feature (s ! (i - 1)) f < feature (s ! i) f"
    and L: "mset (flowers_of l') = mset (flowers_of (new_Node (take i s) (position_of node @ ''L'')))
      \<and> (\<forall>n \<in> set (nodes_of l'). \<forall>l r. left_of n = Some l \<and> right_of n = Some r \<longrightarrow> exact_split fp n l r)"
    and R: "mset (flowers_of r') = mset (flowers_of (new_Node (drop i s) (position_of node @ ''R'')))
      \<and> (\<forall>n \<in> set (nodes_of r'). \<forall>l r. left_of n = Some l \<and> right_of n = Some r \<longrightarrow> exact_split fp n l r)"
  let ?t = "Node (feature_name f) (midpoint_at fp f s i) (position_of node) s (Some l') (Some r')"
  have ls: "length s = length (flowers_of node)" and ms: "mset s = mset (flowers_of node)"
    and so: "sorted (map (\<lambda>x. feature x f) s)"
    unfolding s by (simp_all add: sorted_by_props searched_props)
  have ml: "mset (flowers_of l') = mset (take i s)" and mr: "mset (flowers_of r') = mset (drop i s)"
    using L R by (simp_all add: new_Node_def)
  have low: "feature x f \<le> feature (s ! (i - 1)) f" if "x \<in> set (flowers_of l')" for x
  proof -
    from that ml have "x \<in> set (take i s)" by (metis set_mset_mset)
    then show ?thesis
      using sorted_take_le [OF so i(1)] i(2) ls by simp
  qed
  have high: "feature (s ! i) f \<le> feature x f" if "x \<in> set (flowers_of r')" for x
  proof -
    from that mr have "x \<in> set (drop i s)" by (metis set_mset_mset)
    then show ?thesis
      using sorted_drop_ge [OF so] i(2) ls by simp
  qed
  have top: "exact_split fp ?t l' r'"
    unfolding exact_split_def
    using i ls so lt ml mr low high
    by (intro exI [of _ f] exI [of _ i]) simp
  have "\<forall>n \<in> set (nodes_of ?t). \<forall>l r. left_of n = Some l \<and> right_of n = Some r \<longrightarrow> exact_split fp n l r"
    unfolding nodes_of_Node using top L R by auto
  then show "mset (flowers_of ?t) = mset (flowers_of node)
    \<and> (\<forall>n \<in> set (nodes_of ?t). \<forall>l r. left_of n = Some l \<and> right_of n = Some r \<longrightarrow> exact_split fp n l r)"
    using ms by simp
qed

lemma build_tree_depth:
  assumes "flowers_of node \<noteq> []"
  shows "\<exists>t k'. build_tree fp md ent node k = Inr (t, k')
    \<and> (int (length (position_of node)) \<le> md \<longrightarrow>
         (\<forall>n \<in> set (nodes_of t). int (length (position_of n)) \<le> md))"
  using assms
proof (rule build_tree_rule)
  fix node k fls
  show "int (length (position_of node)) \<le> md \<longrightarrow>
     (\<forall>n \<in> set (nodes_of (leaf_of (ent k) (position_of node) fls)). int (length (position_of n)) \<le> md)"
    by (simp add: leaf_of_def)
next
  fix node k f s i l' r'
  assume nd: "md \<noteq> int (length (position_of node))"
    and L: "int (length (position_of (new_Node (take i s) (position_of node @ ''L'')))) \<le> md \<longrightarrow>
         (\<forall>n \<in> set (nodes_of l'). int (length (position_of n)) \<le> md)"
    and R: "int (length (position_of (new_Node (drop i s) (position_of node @ ''R'')))) \<le> md \<longrightarrow>
         (\<forall>n \<in> set (nodes_of r'). int (length (position_of n)) \<le> md)"
  let ?t = "Node (feature_name f) (midpoint_at fp f s i) (position_of node) s (Some l') (Some r')"
  show "int (length (position_of node)) \<le> md \<longrightarrow>
        (\<forall>n \<in> set (nodes_of ?t). int (length (position_of n)) \<le> md)"
  proof
    assume le: "int (length (position_of node)) \<le> md"
    with nd have "int (length (position_of node)) + 1 \<le> md" by simp
    then have "\<forall>n \<in> set (nodes_of l'). int (length (position_of n)) \<le> md"
      and "\<forall>n \<in> set (nodes_of r'). int (length (position_of n)) \<le> md"
      using L R by (simp_all add: new_Node_def)
    with le show "\<forall>n \<in> set (nodes_of ?t). int (length (position_of n)) \<le> md"
      unfolding nodes_of_Node by auto
  qed
qed

lemma set_max_depth_in_range:
  assumes "- (2 ^ 31) \<le> depth + int (length (position_of node))"
    and "depth + int (length (position_of node)) < 2 ^ 31"
  shows "set_max_depth node depth = depth + int (length (position_of node))"
  unfolding set_max_depth_def using assms
  by (simp add: signed_take_bit_int_eq_self)


section \<open>Double arithmetic\<close>

lemma fpu_sel:
  "fadd binary64 x y = to_double (x + y)" "fsub binary64 x y = to_double (x - y)"
  "fmul binary64 x y = to_double (x * y)" "fdiv binary64 x y = to_double (x / y)"
  "flog2 binary64 x = to_double (log 2 x)"
  "fadd exact_fpu x y = x + y" "fsub exact_fpu x y = x - y"
  "fmul exact_fpu x y = x * y" "fdiv exact_fpu x y = x / y"
  "flog2 exact_fpu x = log 2 x"
  by (simp_all add: binary64_def exact_fpu_def)

lemma pow2_powr: "pow2 e = 2 powr (of_int e)"
  by (simp add: pow2_def powr_int)

lemma pow2_pos: "0 < pow2 e"
  by (simp add: pow2_def)

lemma to_double_eval:
  assumes "pow2 e \<le> \<bar>x\<bar>" "\<bar>x\<bar> < pow2 (e + 1)" "- 1022 \<le> e"
  shows "to_double x = of_int (round_even (x / pow2 (e - 52))) * pow2 (e - 52)"
proof -
  have pos: "0 < \<bar>x\<bar>" using assms(1) pow2_pos [of e] by linarith
  have "of_int e \<le> log 2 \<bar>x\<bar>"
    using assms(1) pos by (simp add: le_log_iff pow2_powr)
  moreover have "log 2 \<bar>x\<bar> < of_int e + 1"
    using assms(2) pos by (simp add: log_less_iff pow2_powr)
  ultimately have "\<lfloor>log 2 \<bar>x\<bar>\<rfloor> = e"
    by (simp add: floor_unique)
  with assms(3) pos show ?thesis
    by (simp add: to_double_def Let_def)
qed

lemma round_even_int: "round_even (of_int n) = n"
  by (simp add: round_even_def)

lemma to_double_vals:
  "to_double 0 = 0" "to_double 1 = 1" "to_double (- 1) = - 1"
  "to_double (1 / 2) = 1 / 2" "to_double (- (1 / 2)) = - (1 / 2)"
  "to_double 2 = 2" "to_double 3 = 3" "to_double (3 / 2) = 3 / 2"
proof -
  show "to_double 0 = 0" by (simp add: to_double_def)
  show "to_double 1 = 1"
    using to_double_eval [of 0 1] by (simp add: pow2_def round_even_def)
  show "to_double (- 1) = - 1"
    using to_double_eval [of 0 "- 1"] by (simp add: pow2_def round_even_def)
  show "to_double (1 / 2) = 1 / 2"
    using to_double_eval [of "- 1" "1 / 2"] by (simp add: pow2_def round_even_def)
  show "to_double (- (1 / 2)) = - (1 / 2)"
    using to_double_eval [of "- 1" "- (1 / 2)"] by (simp add: pow2_def round_even_def)
  show "to_double 2 = 2"
    using to_double_eval [of 1 2] by (simp add: pow2_def round_even_def)
  show "to_double 3 = 3"
    using to_double_eval [of 1 3] by (simp add: pow2_def round_even_def)
  show "to_double (3 / 2) = 3 / 2"
    using to_double_eval [of 0 "3 / 2"] by (simp add: pow2_def round_even_def)
qed

section \<open>Concrete runs\<close>

text \<open>
  The runs are evaluated in \<open>binary64\<close>. Their features, proportions and gains are numbers
  with short significands, so most operations are exact; the three that round are named where
  they occur.
\<close>

lemma log2_half: "log 2 (1 / 2) = - 1"
  by (simp add: log_divide)

lemma linlog_simps:
  "linlog fp 0 = 0" "linlog binary64 1 = 0" "linlog binary64 (1 / 2) = - (1 / 2)"
  "linlog exact_fpu 1 = 0" "linlog exact_fpu (1 / 2) = - (1 / 2)"
  by (simp_all add: linlog_def log2_half fpu_sel to_double_vals)

lemma flower_sel:
  "sl_of (flower a b c d k) = a" "sw_of (flower a b c d k) = b"
  "pl_of (flower a b c d k) = c" "pw_of (flower a b c d k) = d"
  "get_class (flower a b c d k) = k"
  by (simp_all add: flower_def get_class_def)

lemma ex2_SL:
  "max_gain binary64 SL (Node ft th pos ex2 l r) =
     Inr (1, Node ''SL'' (3 / 2) pos ex2 (Some (new_Node [flower 1 1 1 1 0] (pos @ ''L'')))
               (Some (new_Node [flower 2 1 1 1 1] (pos @ ''R''))))"
  by (simp add: max_gain_def sort_flowers_by_def ex2_def flower_sel scan.simps next_change.simps
      vec_at_def split_node_def gain_def count_class_def new_Node_def I_def linlog_simps feature_name_def
      fpu_sel to_double_vals)

lemma ex2_other:
  "f \<noteq> SL \<Longrightarrow> max_gain binary64 f (Node ft th pos ex2 l r) =
     Inr (0, Node (feature_name f) 1 pos ex2 (Some (new_Node [flower 1 1 1 1 0] (pos @ ''L'')))
               (Some (new_Node [flower 2 1 1 1 1] (pos @ ''R''))))"
  by (cases f)
     (simp_all add: max_gain_def sort_flowers_by_def ex2_def flower_sel scan.simps next_change.simps
      vec_at_def split_node_def gain_def count_class_def new_Node_def I_def linlog_simps
      fpu_sel to_double_vals)

lemma to_string_small: "to_string 0 = ''0''" "to_string 1 = ''1''" "to_string 2 = ''2''"
  by code_simp+

lemma ex2_loop:
  "md \<noteq> int (length pos) \<Longrightarrow> same_class_loop md (Node ft th pos ex2 l r) 0 = Inr False"
  by (simp add: same_class_loop.simps size_minus_1_def ex2_def vec_at_def flower_sel)

lemma single_leaf:
  "build_tree fp md ent (new_Node [x] pos) k = Inr (leaf_of (ent k) pos [x], k + 1)"
  using build_tree_leaf [of "new_Node [x] pos" md fp ent k]
  by (simp add: new_Node_def same_class_def)

lemma ex2_build_tree:
  assumes "md \<noteq> int (length pos)"
  shows "build_tree binary64 md ent0 (new_Node ex2 pos) 0 = Inr (ex2_tree pos, 2)"
proof -
  have root: "new_Node ex2 pos = Node [] 0 pos ex2 None None"
    by (simp add: new_Node_def)
  have l: "\<And>k. leaf_of (ent0 k) (pos @ ''L'') [flower 1 1 1 1 0]
      = Node ''0'' 0 (pos @ ''L'') [flower 1 1 1 1 0] None None"
    by (simp add: leaf_of_def cnt_def flower_sel ent0_def to_string_small)
  have r: "\<And>k. leaf_of (ent0 k) (pos @ ''R'') [flower 2 1 1 1 1]
      = Node ''1'' 0 (pos @ ''R'') [flower 2 1 1 1 1] None None"
    by (simp add: leaf_of_def cnt_def flower_sel ent0_def to_string_small)
  show ?thesis
    unfolding root ex2_tree_def using assms
    by (subst build_tree.simps)
       (simp add: ex2_loop ex2_SL ex2_other best_feature_def single_leaf l r)
qed

lemma one_plus_ulp_props:
  "1 < one_plus_ulp" "one_plus_ulp \<noteq> 1" "1 \<noteq> one_plus_ulp" "1 \<le> one_plus_ulp"
  "\<not> one_plus_ulp \<le> 1"
  "to_double (1 + one_plus_ulp) = 2" "to_double one_plus_ulp = one_plus_ulp"
proof -
  show "1 < one_plus_ulp" "one_plus_ulp \<noteq> 1" "1 \<noteq> one_plus_ulp" "1 \<le> one_plus_ulp"
    "\<not> one_plus_ulp \<le> 1"
    by (simp_all add: one_plus_ulp_def)
  show "to_double (1 + one_plus_ulp) = 2"
    using to_double_eval [of 1 "1 + one_plus_ulp"]
    by (simp add: pow2_def round_even_def one_plus_ulp_def)
  show "to_double one_plus_ulp = one_plus_ulp"
    using to_double_eval [of 0 "one_plus_ulp"]
    by (simp add: pow2_def round_even_def one_plus_ulp_def)
qed

lemma ex2r_SL:
  "max_gain binary64 SL (Node ft th pos ex2r l r) =
     Inr (1, Node ''SL'' 1 pos ex2r (Some (new_Node [flower 1 1 1 1 0] (pos @ ''L'')))
               (Some (new_Node [flower one_plus_ulp 1 1 1 1] (pos @ ''R''))))"
  by (simp add: max_gain_def sort_flowers_by_def ex2r_def flower_sel scan.simps next_change.simps
      vec_at_def split_node_def gain_def count_class_def new_Node_def I_def linlog_simps feature_name_def
      fpu_sel to_double_vals one_plus_ulp_props)

lemma ex2r_other:
  "f \<noteq> SL \<Longrightarrow> max_gain binary64 f (Node ft th pos ex2r l r) =
     Inr (0, Node (feature_name f) 1 pos ex2r (Some (new_Node [flower 1 1 1 1 0] (pos @ ''L'')))
               (Some (new_Node [flower one_plus_ulp 1 1 1 1] (pos @ ''R''))))"
  by (cases f)
     (simp_all add: max_gain_def sort_flowers_by_def ex2r_def flower_sel scan.simps next_change.simps
      vec_at_def split_node_def gain_def count_class_def new_Node_def I_def linlog_simps
      fpu_sel to_double_vals)

lemma ex2r_loop:
  "md \<noteq> int (length pos) \<Longrightarrow> same_class_loop md (Node ft th pos ex2r l r) 0 = Inr False"
  by (simp add: same_class_loop.simps size_minus_1_def ex2r_def vec_at_def flower_sel)

lemma ex2r_build_tree:
  "build_tree binary64 1 ent0 (new_Node ex2r []) 0 = Inr (ex2r_tree, 2)"
proof -
  have root: "new_Node ex2r [] = Node [] 0 [] ex2r None None"
    by (simp add: new_Node_def)
  have l: "\<And>k. leaf_of (ent0 k) ''L'' [flower 1 1 1 1 0]
      = Node ''0'' 0 ''L'' [flower 1 1 1 1 0] None None"
    by (simp add: leaf_of_def cnt_def flower_sel ent0_def to_string_small)
  have r: "\<And>k. leaf_of (ent0 k) ''R'' [flower one_plus_ulp 1 1 1 1]
      = Node ''1'' 0 ''R'' [flower one_plus_ulp 1 1 1 1] None None"
    by (simp add: leaf_of_def cnt_def flower_sel ent0_def to_string_small)
  show ?thesis
    unfolding root ex2r_tree_def
    by (subst build_tree.simps)
       (simp add: ex2r_loop ex2r_SL ex2r_other best_feature_def single_leaf l r)
qed

lemma ex2r_validate:
  "validate_flower ex2r_tree (flower 1 1 1 1 0) = Inr False"
  "classify_spec ex2r_tree (flower 1 1 1 1 0) = Some ''1''"
  by (simp_all add: ex2r_tree_def flower_sel to_string_small feature_named_def)




lemma ex4_gain: "gain_at binary64 ex4 2 = 0"
  by (simp add: gain_at_def total_of_def info_of_def cnt_def ex4_def flower_sel I_def linlog_simps
      fpu_sel to_double_vals)

lemma ex4_max_gain:
  "max_gain binary64 f (Node ft th pos ex4 l r) =
     Inr (0, Node (feature_name f) 1 pos ex4 (Some (new_Node [flower 1 1 1 1 0] (pos @ ''L'')))
               (Some (new_Node [flower 1 1 1 1 1, flower 2 1 1 1 0, flower 3 1 1 1 1] (pos @ ''R''))))"
  by (cases f)
     (simp_all add: max_gain_def sort_flowers_by_def ex4_def flower_sel scan.simps next_change.simps
      vec_at_def split_node_def gain_def count_class_def new_Node_def I_def linlog_simps
      fpu_sel to_double_vals)

lemma ex4_loop:
  "md \<noteq> int (length pos) \<Longrightarrow> same_class_loop md (Node ft th pos ex4 l r) 0 = Inr False"
  by (simp add: same_class_loop.simps size_minus_1_def ex4_def vec_at_def flower_sel)

lemma ex4_build_tree:
  "build_tree binary64 1 ent0 (new_Node ex4 []) 0 = Inr (Node ''0'' 0 [] ex4 None None, 1)"
proof -
  have root: "new_Node ex4 [] = Node [] 0 [] ex4 None None"
    by (simp add: new_Node_def)
  have l: "make_leaf (ent0 0) (Node ft th [] ex4 l r) = Node ''0'' 0 [] ex4 None None" for ft th l r
    by (simp add: make_leaf_eq leaf_of_def cnt_def flower_sel ent0_def to_string_small ex4_def)
  show ?thesis
    unfolding root
    by (subst build_tree.simps)
       (simp add: ex4_loop ex4_max_gain l)
qed

lemma ex4_max_gain_exact:
  "max_gain exact_fpu f (Node ft th pos ex4 l r) =
     Inr (0, Node (feature_name f) 1 pos ex4 (Some (new_Node [flower 1 1 1 1 0] (pos @ ''L'')))
               (Some (new_Node [flower 1 1 1 1 1, flower 2 1 1 1 0, flower 3 1 1 1 1] (pos @ ''R''))))"
  by (cases f)
     (simp_all add: max_gain_def sort_flowers_by_def ex4_def flower_sel scan.simps next_change.simps
      vec_at_def split_node_def gain_def count_class_def new_Node_def I_def linlog_simps
      fpu_sel)

lemma ex4_build_tree_exact:
  "build_tree exact_fpu 1 ent0 (new_Node ex4 []) 0 = Inr (Node ''0'' 0 [] ex4 None None, 1)"
proof -
  have root: "new_Node ex4 [] = Node [] 0 [] ex4 None None"
    by (simp add: new_Node_def)
  have l: "make_leaf (ent0 0) (Node ft th [] ex4 l r) = Node ''0'' 0 [] ex4 None None" for ft th l r
    by (simp add: make_leaf_eq leaf_of_def cnt_def flower_sel ent0_def to_string_small ex4_def)
  show ?thesis
    unfolding root
    by (subst build_tree.simps)
       (simp add: ex4_loop ex4_max_gain_exact l)
qed





lemma scan_stop:
  "\<not> sp < length (flowers_of node) \<Longrightarrow> scan fp f node sp idx cm = Inr (node, idx, cm)"
  by (subst scan.simps) simp

lemma scan_step:
  assumes "sp < length (flowers_of node)" "next_change f (flowers_of node) sp = Inr sp'"
    "sp' \<le> length (flowers_of node)"
  shows "scan fp f node sp idx cm =
     (if gain_at fp (flowers_of node) sp' > cm
      then scan fp f (Node (feature_of node) (threshold_of node) (position_of node) (flowers_of node)
            (Some (new_Node (take sp' (flowers_of node)) (position_of node @ ''L'')))
            (Some (new_Node (drop sp' (flowers_of node)) (position_of node @ ''R''))))
            (sp' + 2) sp' (gain_at fp (flowers_of node) sp')
      else scan fp f (Node (feature_of node) (threshold_of node) (position_of node) (flowers_of node)
            (Some (new_Node (take sp' (flowers_of node)) (position_of node @ ''L'')))
            (Some (new_Node (drop sp' (flowers_of node)) (position_of node @ ''R''))))
            (sp' + 2) idx cm)"
proof -
  note sn = split_node_ok [OF assms(3)]
  show ?thesis
    using assms(1) by (subst scan.simps) (simp add: assms(2) sn gain_split_node [OF sn])
qed

lemma I_thirds: "1 / 3 < I exact_fpu (2 / 3) (1 / 3) 0" "I exact_fpu (2 / 3) (1 / 3) 0 < 4 / 3"
proof -
  have "log 2 ((2::real) ^ 2) = 2"
    by (subst log_pow_cancel) simp_all
  then have l4: "log 2 4 = 2" by simp
  have l3: "1 < log 2 3" "log 2 3 < 2"
    using log_less_cancel_iff [of 2 2 3] log_less_cancel_iff [of 2 3 4] l4
    by simp_all
  have "log 2 (2 / 3) = 1 - log 2 3" "log 2 (1 / 3) = - log 2 3"
    by (simp_all add: log_divide)
  then have "I exact_fpu (2 / 3) (1 / 3) 0 = log 2 3 - 2 / 3"
    by (simp add: I_def linlog_def fpu_sel field_simps)
  with l3 show "1 / 3 < I exact_fpu (2 / 3) (1 / 3) 0" "I exact_fpu (2 / 3) (1 / 3) 0 < 4 / 3"
    by simp_all
qed

lemma ex3_gains:
  "gain_at exact_fpu ex3 1 = I exact_fpu (2 / 3) (1 / 3) 0 - 2 / 3"
  "gain_at exact_fpu ex3 2 = I exact_fpu (2 / 3) (1 / 3) 0"
  "gain_at fp ex3 3 = 0"
  by (simp_all add: gain_at_def total_of_def info_of_def cnt_def ex3_def flower_sel I_def linlog_simps
      fpu_sel)

lemma ex3b_gains:
  "gain_at exact_fpu ex3b 1 = I exact_fpu (2 / 3) (1 / 3) 0 - 2 / 3"
  "gain_at exact_fpu ex3b 2 = I exact_fpu (2 / 3) (1 / 3) 0"
  "gain_at fp ex3b 3 = 0"
  by (simp_all add: gain_at_def total_of_def info_of_def cnt_def ex3b_def flower_sel I_def linlog_simps
      fpu_sel)

lemma ex4_gain3: "0 < gain_at exact_fpu ex4 3"
proof -
  have "gain_at exact_fpu ex4 3 = 1 - 3 / 4 * I exact_fpu (2 / 3) (1 / 3) 0"
    by (simp add: gain_at_def total_of_def info_of_def cnt_def ex4_def flower_sel I_def linlog_simps
      fpu_sel)
  with I_thirds(2) show ?thesis by simp
qed

section \<open>Claims about \<open>build_tree\<close>\<close>

text \<open>
  Claim C9. In every arithmetic, on a non-empty partition \<open>build_tree\<close> returns a tree: no vector is read out of
  range, no iterator range leaves its vector, no null child is dereferenced and no total
  divides by zero, in the purity loop, in the split search and in \<open>gain\<close>. The accesses
  themselves are unguarded: on an empty partition whose depth is not the maximum the purity
  loop reads out of range, and \<open>max_gain\<close> reads out of range on fewer than two flowers; the
  purity loop leaves by \<open>break\<close>, towards \<open>max_gain\<close>, only with two or more. After
  \<open>split_node\<close> the value of \<open>gain\<close> is defined, and it is 0, before any division, when a
  side is empty.
\<close>

theorem build_tree_in_bounds:
  "(flowers_of node \<noteq> [] \<longrightarrow> (\<exists>t k'. build_tree fp md ent node k = Inr (t, k')))
   \<and> (flowers_of node = [] \<and> md \<noteq> int (length (position_of node)) \<longrightarrow>
        build_tree fp md ent node k = Inl OutOfBounds)
   \<and> (same_class_loop md node 0 = Inr False \<longrightarrow> 2 \<le> length (flowers_of node))
   \<and> (length (flowers_of node) < 2 \<longrightarrow> max_gain fp f node = Inl OutOfBounds)
   \<and> (2 \<le> length (flowers_of node) \<longrightarrow> (\<exists>g node'. max_gain fp f node = Inr (g, node')))
   \<and> (\<forall>node'. split_node node i = Inr node' \<longrightarrow>
         (\<exists>g. gain fp node' = Inr g)
       \<and> (take i (flowers_of node) = [] \<or> drop i (flowers_of node) = [] \<longrightarrow> gain fp node' = Inr 0))"
proof (intro conjI impI allI)
  assume "flowers_of node \<noteq> []"
  from build_tree_frame [OF this, of fp md ent k]
  show "\<exists>t k'. build_tree fp md ent node k = Inr (t, k')" by blast
next
  assume "flowers_of node = [] \<and> md \<noteq> int (length (position_of node))"
  then show "build_tree fp md ent node k = Inl OutOfBounds"
    by (simp add: build_tree_empty)
next
  assume brk: "same_class_loop md node 0 = Inr False"
  show "2 \<le> length (flowers_of node)"
  proof (cases "flowers_of node = []")
    case True
    with brk show ?thesis by (simp add: same_class_loop_empty split: if_splits)
  next
    case False
    with brk have "\<not> same_class (flowers_of node)"
      by (simp add: same_class_loop_nonempty)
    then show ?thesis
      using same_class_short [of "flowers_of node"] by (cases "2 \<le> length (flowers_of node)") auto
  qed
next
  assume "length (flowers_of node) < 2"
  then show "max_gain fp f node = Inl OutOfBounds" by (rule max_gain_short)
next
  assume "2 \<le> length (flowers_of node)"
  from max_gain_ok [OF this, of fp f] show "\<exists>g node'. max_gain fp f node = Inr (g, node')" by blast
next
  fix node' assume "split_node node i = Inr node'"
  then show "\<exists>g. gain fp node' = Inr g" by (simp add: gain_split_node)
next
  fix node' assume sn: "split_node node i = Inr node'"
    and "take i (flowers_of node) = [] \<or> drop i (flowers_of node) = []"
  then have "gain_at fp (flowers_of node) i = 0"
    by (auto simp: gain_at_def total_of_Nil)
  then show "gain fp node' = Inr 0" by (simp add: gain_split_node [OF sn])
qed

theorem build_tree_in_bounds_witness:
  "flowers_of (new_Node ex2 []) \<noteq> []
   \<and> (\<exists>t k'. build_tree binary64 1 ent0 (new_Node ex2 []) 0 = Inr (t, k'))
   \<and> flowers_of (new_Node [] []) = [] \<and> (1::int) \<noteq> int (length (position_of (new_Node [] [])))
   \<and> build_tree binary64 1 ent0 (new_Node [] []) 0 = Inl OutOfBounds
   \<and> same_class_loop 1 (new_Node ex2 []) 0 = Inr False
   \<and> length (flowers_of (new_Node [flower 1 1 1 1 0] [])) < 2
   \<and> max_gain binary64 SL (new_Node [flower 1 1 1 1 0] []) = Inl OutOfBounds
   \<and> 2 \<le> length (flowers_of (new_Node ex2 []))
   \<and> (\<exists>g node'. max_gain binary64 SL (new_Node ex2 []) = Inr (g, node'))
   \<and> (\<exists>node'. split_node (new_Node ex2 []) 0 = Inr node'
        \<and> take 0 (flowers_of (new_Node ex2 [])) = [] \<and> gain binary64 node' = Inr 0)"
proof -
  have loop: "same_class_loop 1 (new_Node ex2 []) 0 = Inr False"
    unfolding new_Node_def by (rule ex2_loop) simp
  show ?thesis
    using loop
      build_tree_in_bounds [where node = "new_Node ex2 []" and md = 1 and ent = ent0 and k = 0 and fp = binary64
        and f = SL and i = 0]
      build_tree_in_bounds [where node = "new_Node [] []" and md = 1 and ent = ent0 and k = 0 and fp = binary64
        and f = SL and i = 0]
      build_tree_in_bounds [where node = "new_Node [flower 1 1 1 1 0] []" and md = 1 and ent = ent0
        and k = 0 and fp = binary64 and f = SL and i = 0]
    by (simp add: new_Node_def ex2_def split_node_def)
qed

text \<open>
  What \<open>build_tree\<close> does at a node, in terms of the numbers that \<open>max_gain\<close> returns: the
  result has no children exactly when all flowers share one class, or the depth of the node
  is \<open>max_depth\<close>, or each of the four calls of \<open>max_gain\<close> returns 0; otherwise it has
  two children, the results of \<open>build_tree\<close> on the two parts, the left one built first.
\<close>

lemma build_tree_leaf_iff:
  assumes "flowers_of node \<noteq> []"
  shows "\<exists>t k'. build_tree fp md ent node k = Inr (t, k')
    \<and> (if same_class (flowers_of node) \<or> md = int (length (position_of node))
           \<or> (\<forall>f. best_gain fp f node = Inr 0)
        then left_of t = None \<and> right_of t = None \<and> k' = k + 1
        else \<exists>fl fr l' r' k1.
               mset fl + mset fr = mset (flowers_of node)
             \<and> build_tree fp md ent (new_Node fl (position_of node @ ''L'')) k = Inr (l', k1)
             \<and> build_tree fp md ent (new_Node fr (position_of node @ ''R'')) k1 = Inr (r', k')
             \<and> left_of t = Some l' \<and> right_of t = Some r')"
  using assms
proof (rule build_tree_rule)
  fix node k fls
  assume "md = int (length (position_of node)) \<or> same_class (flowers_of node)
        \<or> (\<forall>f. best_gain fp f node = Inr 0)"
  then show "if same_class (flowers_of node) \<or> md = int (length (position_of node))
           \<or> (\<forall>f. best_gain fp f node = Inr 0)
        then left_of (leaf_of (ent k) (position_of node) fls) = None
           \<and> right_of (leaf_of (ent k) (position_of node) fls) = None \<and> k + 1 = k + 1
        else \<exists>fl fr l' r' k1.
               mset fl + mset fr = mset (flowers_of node)
             \<and> build_tree fp md ent (new_Node fl (position_of node @ ''L'')) k = Inr (l', k1)
             \<and> build_tree fp md ent (new_Node fr (position_of node @ ''R'')) k1 = Inr (r', k + 1)
             \<and> left_of (leaf_of (ent k) (position_of node) fls) = Some l'
             \<and> right_of (leaf_of (ent k) (position_of node) fls) = Some r'"
    by (auto simp: leaf_of_def)
next
  fix node k gSL gSW gPL gPW f s i l' r' k1 k2
  assume nd: "md \<noteq> int (length (position_of node))" and ns: "\<not> same_class (flowers_of node)"
    and b: "best_gain fp SL node = Inr gSL" "best_gain fp SW node = Inr gSW"
      "best_gain fp PL node = Inr gPL" "best_gain fp PW node = Inr gPW"
    and nz: "\<not> (gSL = 0 \<and> gSW = 0 \<and> gPL = 0 \<and> gPW = 0)"
    and s: "s = sorted_by f (searched (flowers_of node))"
    and bl: "build_tree fp md ent (new_Node (take i s) (position_of node @ ''L'')) k = Inr (l', k1)"
    and br: "build_tree fp md ent (new_Node (drop i s) (position_of node @ ''R'')) k1 = Inr (r', k2)"
  let ?t = "Node (feature_name f) (midpoint_at fp f s i) (position_of node) s (Some l') (Some r')"
  have "\<not> (\<forall>f. best_gain fp f node = Inr 0)"
  proof
    assume "\<forall>f. best_gain fp f node = Inr 0"
    then have "best_gain fp SL node = Inr 0" "best_gain fp SW node = Inr 0"
      "best_gain fp PL node = Inr 0" "best_gain fp PW node = Inr 0"
      by blast+
    with b nz show False by simp
  qed
  then have c: "\<not> (same_class (flowers_of node) \<or> md = int (length (position_of node))
           \<or> (\<forall>f. best_gain fp f node = Inr 0))"
    using nd ns by simp
  have "mset (take i s) + mset (drop i s) = mset (flowers_of node)"
    using s by (metis append_take_drop_id mset_append searched_props(1) sorted_by_props(2))
  then have "\<exists>fl fr l'' r'' k1.
               mset fl + mset fr = mset (flowers_of node)
             \<and> build_tree fp md ent (new_Node fl (position_of node @ ''L'')) k = Inr (l'', k1)
             \<and> build_tree fp md ent (new_Node fr (position_of node @ ''R'')) k1 = Inr (r'', k2)
             \<and> left_of ?t = Some l'' \<and> right_of ?t = Some r''"
    using bl br by (intro exI [of _ "take i s"] exI [of _ "drop i s"] exI [of _ l'] exI [of _ r'] exI [of _ k1]) simp
  then show "if same_class (flowers_of node) \<or> md = int (length (position_of node))
           \<or> (\<forall>f. best_gain fp f node = Inr 0)
        then left_of ?t = None \<and> right_of ?t = None \<and> k2 = k + 1
        else \<exists>fl fr l'' r'' k1.
               mset fl + mset fr = mset (flowers_of node)
             \<and> build_tree fp md ent (new_Node fl (position_of node @ ''L'')) k = Inr (l'', k1)
             \<and> build_tree fp md ent (new_Node fr (position_of node @ ''R'')) k1 = Inr (r'', k2)
             \<and> left_of ?t = Some l'' \<and> right_of ?t = Some r''"
    using c by (simp only: if_not_P if_False simp_thms)
qed

text \<open>
  Claim C5, at an input where the code departs from it. The flowers of \<open>ex4\<close> do not share
  one class, the depth of the root is not the maximum, and the sepal length changes at the
  indices 2 and 3 of the sorted flowers. \<open>max_gain\<close> tests index 2, where each side holds
  one flower of class 0 and one of class 1 and the gain is 0 (no operation rounds there);
  then line 134 and the loop header move \<open>split_point\<close> to 4 and the loop ends. Index 3,
  where the information gain is positive, is never a candidate. The other three features are
  constant. All four searches return 0 and \<open>build_tree\<close> makes the root a leaf, in
  \<open>binary64\<close> and in exact arithmetic alike.
\<close>

theorem leaf_despite_positive_gain:
  "build_tree binary64 1 ent0 (new_Node ex4 []) 0 = Inr (Node ''0'' 0 [] ex4 None None, 1)
   \<and> build_tree exact_fpu 1 ent0 (new_Node ex4 []) 0 = Inr (Node ''0'' 0 [] ex4 None None, 1)
   \<and> get_class (ex4 ! 0) \<noteq> get_class (ex4 ! 1)
   \<and> (1::int) \<noteq> int (length (position_of (new_Node ex4 [])))
   \<and> sorted_by SL ex4 = ex4
   \<and> feature (ex4 ! 2) SL \<noteq> feature (ex4 ! 3) SL
   \<and> 0 < gain_at exact_fpu ex4 3"
  by (simp add: ex4_build_tree ex4_build_tree_exact ex4_gain3)
     (simp add: ex4_def flower_sel new_Node_def sorted_by_def)

lemma best_feature_max:
  "gain_table a b c d f' \<le> gain_table a b c d (best_feature a b c d)"
  by (cases f') (auto simp: gain_table_def best_feature_def)

lemma best_feature_first:
  "rank f' < rank (best_feature a b c d) \<Longrightarrow>
     gain_table a b c d f' < gain_table a b c d (best_feature a b c d)"
  by (cases f') (auto simp: gain_table_def best_feature_def split: if_splits)

text \<open>
  The branch of lines 205 to 213 in terms of the numbers that \<open>max_gain\<close> returns: the
  recorded feature has the greatest of the four, and every feature declared before it has a
  strictly smaller one.
\<close>

lemma build_tree_feature_choice:
  assumes "flowers_of node \<noteq> []"
  shows "\<exists>t k'. build_tree fp md ent node k = Inr (t, k')
    \<and> (left_of t \<noteq> None \<longrightarrow>
         (\<exists>f g. (\<forall>f'. best_gain fp f' node = Inr (g f'))
              \<and> feature_of t = feature_name f
              \<and> (\<forall>f'. g f' \<le> g f)
              \<and> (\<forall>f'. rank f' < rank f \<longrightarrow> g f' < g f)))"
  using assms
proof (rule build_tree_rule)
  fix node k fls
  show "left_of (leaf_of (ent k) (position_of node) fls) \<noteq> None \<longrightarrow>
         (\<exists>f g. (\<forall>f'. best_gain fp f' node = Inr (g f'))
              \<and> feature_of (leaf_of (ent k) (position_of node) fls) = feature_name f
              \<and> (\<forall>f'. g f' \<le> g f)
              \<and> (\<forall>f'. rank f' < rank f \<longrightarrow> g f' < g f))"
    by (simp add: leaf_of_def)
next
  fix node k gSL gSW gPL gPW f s i l' r'
  assume b: "best_gain fp SL node = Inr gSL" "best_gain fp SW node = Inr gSW"
      "best_gain fp PL node = Inr gPL" "best_gain fp PW node = Inr gPW"
    and f: "f = best_feature gSL gSW gPL gPW"
  let ?t = "Node (feature_name f) (midpoint_at fp f s i) (position_of node) s (Some l') (Some r')"
  let ?g = "gain_table gSL gSW gPL gPW"
  have all: "\<forall>f'. best_gain fp f' node = Inr (?g f')"
  proof
    fix f' show "best_gain fp f' node = Inr (?g f')"
      using b by (cases f') (simp_all add: gain_table_def)
  qed
  have "(\<forall>f'. best_gain fp f' node = Inr (?g f')) \<and> feature_of ?t = feature_name f
      \<and> (\<forall>f'. ?g f' \<le> ?g f) \<and> (\<forall>f'. rank f' < rank f \<longrightarrow> ?g f' < ?g f)"
    using all best_feature_max [where a = gSL and b = gSW and c = gPL and d = gPW]
      best_feature_first [where a = gSL and b = gSW and c = gPL and d = gPW]
    unfolding f by simp
  then show "left_of ?t \<noteq> None \<longrightarrow>
         (\<exists>f'' g. (\<forall>f'. best_gain fp f' node = Inr (g f'))
              \<and> feature_of ?t = feature_name f''
              \<and> (\<forall>f'. g f' \<le> g f'')
              \<and> (\<forall>f'. rank f' < rank f'' \<longrightarrow> g f' < g f''))"
    by blast
qed

lemma ex3b_sorted: "sort_key (\<lambda>fl. feature fl f) ex3b = ex3b"
  by (cases f) (simp_all add: ex3b_def flower_sel)

lemma ex3b_next:
  "next_change SL ex3b 1 = Inr 1" "next_change SW ex3b 1 = Inr 2"
  "next_change PL ex3b 1 = Inr 3" "next_change PW ex3b 1 = Inr 3"
  by (simp_all add: next_change.simps ex3b_def vec_at_def flower_sel)

lemma ex3b_scan:
  "\<exists>n. scan fp SL (Node ft th pos ex3b l r) 1 1 0 = Inr (n, 1, max 0 (gain_at fp ex3b 1))
       \<and> flowers_of n = ex3b"
  "\<exists>n. scan fp SW (Node ft th pos ex3b l r) 1 1 0
         = Inr (n, if 0 < gain_at fp ex3b 2 then 2 else 1, max 0 (gain_at fp ex3b 2))
       \<and> flowers_of n = ex3b"
  "\<exists>n. scan fp PL (Node ft th pos ex3b l r) 1 1 0 = Inr (n, 1, 0) \<and> flowers_of n = ex3b"
  "\<exists>n. scan fp PW (Node ft th pos ex3b l r) 1 1 0 = Inr (n, 1, 0) \<and> flowers_of n = ex3b"
proof -
  let ?n = "Node ft th pos ex3b l r"
  have len: "length ex3b = 3" by (simp add: ex3b_def)
  show "\<exists>n. scan fp SL ?n 1 1 0 = Inr (n, 1, max 0 (gain_at fp ex3b 1)) \<and> flowers_of n = ex3b"
    using scan_step [of 1 ?n SL 1 fp 1 0]
    by (simp add: len ex3b_next scan_stop max_def del: One_nat_def)
  show "\<exists>n. scan fp SW ?n 1 1 0
         = Inr (n, if 0 < gain_at fp ex3b 2 then 2 else 1, max 0 (gain_at fp ex3b 2))
       \<and> flowers_of n = ex3b"
    using scan_step [of 1 ?n SW 2 fp 1 0]
    by (simp add: len ex3b_next scan_stop max_def del: One_nat_def)
  show "\<exists>n. scan fp PL ?n 1 1 0 = Inr (n, 1, 0) \<and> flowers_of n = ex3b"
    using scan_step [of 1 ?n PL 3 fp 1 0]
    by (simp add: len ex3b_next scan_stop ex3b_gains del: One_nat_def)
  show "\<exists>n. scan fp PW ?n 1 1 0 = Inr (n, 1, 0) \<and> flowers_of n = ex3b"
    using scan_step [of 1 ?n PW 3 fp 1 0]
    by (simp add: len ex3b_next scan_stop ex3b_gains del: One_nat_def)
qed

lemma best_gain_scan:
  assumes "scan fp f (sort_flowers_by f node) 1 1 0 = Inr (n, i, c)"
    and "flowers_of n = flowers_of (sort_flowers_by f node)" and "0 < i"
    and "i < length (flowers_of node)"
  shows "best_gain fp f node = Inr c"
  using assms
  by (simp add: best_gain_def max_gain_def split_node_def vec_at_def sort_flowers_by_sel
      sorted_by_props)

lemma ex3b_best:
  "best_gain fp SL (new_Node ex3b []) = Inr (max 0 (gain_at fp ex3b 1))"
  "best_gain fp SW (new_Node ex3b []) = Inr (max 0 (gain_at fp ex3b 2))"
  "best_gain fp PL (new_Node ex3b []) = Inr 0"
  "best_gain fp PW (new_Node ex3b []) = Inr 0"
proof -
  have s: "sort_flowers_by f (new_Node ex3b []) = Node [] 0 [] ex3b None None" for f
    by (simp add: sort_flowers_by_def new_Node_def ex3b_sorted)
  have len: "length (flowers_of (new_Node ex3b [])) = 3" by (simp add: ex3b_def new_Node_def)
  from ex3b_scan(1) [of fp "[]" 0 "[]" None None]
  show "best_gain fp SL (new_Node ex3b []) = Inr (max 0 (gain_at fp ex3b 1))"
    by (auto intro!: best_gain_scan [where i = 1] simp: s len)
  from ex3b_scan(2) [of fp "[]" 0 "[]" None None]
  show "best_gain fp SW (new_Node ex3b []) = Inr (max 0 (gain_at fp ex3b 2))"
    by (auto intro!: best_gain_scan [where i = "if 0 < gain_at fp ex3b 2 then 2 else 1"] simp: s len)
  from ex3b_scan(3) [of fp "[]" 0 "[]" None None]
  show "best_gain fp PL (new_Node ex3b []) = Inr 0"
    by (auto intro!: best_gain_scan [where i = 1] simp: s len)
  from ex3b_scan(4) [of fp "[]" 0 "[]" None None]
  show "best_gain fp PW (new_Node ex3b []) = Inr 0"
    by (auto intro!: best_gain_scan [where i = 1] simp: s len)
qed

text \<open>
  Claim C6, at an input where the code departs from it. On \<open>ex3b\<close> the cut before the
  third flower separates the two classes, and both the sepal length and the sepal width
  change value there: the two features reach the same greatest gain, and SL is the first of
  them in the declared order. \<open>max_gain(SL)\<close> tests index 1 only (line 134 and the loop
  header skip index 2) and returns the smaller gain of that cut; \<open>max_gain(SW)\<close> tests index
  2. \<open>build_tree\<close> compares the two returned numbers and records SW. This holds in every
  arithmetic whose gains at the two cuts are within 1/10 of the exact ones (those of
  \<open>double\<close> arithmetic are within \<open>10^-15\<close>); the exact gains are about 0.25 and 0.92.
\<close>

theorem later_feature_committed:
  assumes "\<bar>gain_at fp ex3b 1 - gain_at exact_fpu ex3b 1\<bar> \<le> 1 / 10"
    and "\<bar>gain_at fp ex3b 2 - gain_at exact_fpu ex3b 2\<bar> \<le> 1 / 10"
  shows "\<exists>t k' gSL gSW. build_tree fp 1 ent0 (new_Node ex3b []) 0 = Inr (t, k')
     \<and> left_of t \<noteq> None \<and> feature_of t = ''SW''
     \<and> best_gain fp SL (new_Node ex3b []) = Inr gSL
     \<and> best_gain fp SW (new_Node ex3b []) = Inr gSW \<and> gSL < gSW
     \<and> feature (ex3b ! 1) SL \<noteq> feature (ex3b ! 2) SL
     \<and> (\<exists>node2. split_node (sort_flowers_by SL (new_Node ex3b [])) 2 = Inr node2
           \<and> gain fp node2 = Inr gSW)"
proof -
  let ?node = "new_Node ex3b []"
  let ?c = "max 0 (gain_at fp ex3b 1)" and ?g = "gain_at fp ex3b 2"
  have "gain_at fp ex3b 1 \<le> gain_at exact_fpu ex3b 1 + 1 / 10"
    and "gain_at exact_fpu ex3b 2 - 1 / 10 \<le> gain_at fp ex3b 2"
    using assms by linarith+
  then have lt: "?c < ?g" and pos: "0 < ?g"
    using I_thirds(1) unfolding ex3b_gains by linarith+
  have bSL: "best_gain fp SL ?node = Inr ?c" and bSW: "best_gain fp SW ?node = Inr ?g"
    and bPL: "best_gain fp PL ?node = Inr 0" and bPW: "best_gain fp PW ?node = Inr 0"
    using ex3b_best [of fp] pos by (simp_all add: max_def)
  have fl: "flowers_of ?node = ex3b" and ps: "position_of ?node = []"
    by (simp_all add: new_Node_def)
  have ne: "flowers_of ?node \<noteq> []" unfolding fl by (simp add: ex3b_def)
  have nsc: "\<not> same_class (flowers_of ?node)"
    unfolding fl by (simp add: ex3b_def same_class_def flower_sel)
  have nz: "\<not> (\<forall>f. best_gain fp f ?node = Inr 0)"
  proof
    assume "\<forall>f. best_gain fp f ?node = Inr 0"
    then have "best_gain fp SW ?node = Inr 0" ..
    with bSW pos show False by simp
  qed
  from build_tree_leaf_iff [OF ne, of fp 1 ent0 0] obtain t k' where
    bt: "build_tree fp 1 ent0 ?node 0 = Inr (t, k')" and kids: "left_of t \<noteq> None"
    using nsc nz by (auto simp: ps)
  from build_tree_feature_choice [OF ne, of fp 1 ent0 0] bt kids obtain f g where
    g: "\<forall>f'. best_gain fp f' ?node = Inr (g f')" and ft: "feature_of t = feature_name f"
    and mx: "\<forall>f'. g f' \<le> g f"
    by auto
  have gv: "g SL = ?c" "g SW = ?g" "g PL = 0" "g PW = 0"
    using g bSL bSW bPL bPW by (metis sum.inject(2))+
  have "f = SW"
    using mx [rule_format, of SW] lt pos gv by (cases f) auto
  then have ftSW: "feature_of t = ''SW''" using ft by (simp add: feature_name_def)
  have "sort_flowers_by f ?node = Node [] 0 [] ex3b None None" for f
    by (simp add: sort_flowers_by_def new_Node_def ex3b_sorted)
  then have s: "sort_flowers_by SL ?node = Node [] 0 [] ex3b None None" .
  have len: "length ex3b = 3" by (simp add: ex3b_def)
  obtain node2 where s2: "split_node (sort_flowers_by SL ?node) 2 = Inr node2"
    using split_node_ok [of 2 "sort_flowers_by SL ?node"] len unfolding s by auto
  have g2: "gain fp node2 = Inr ?g"
    using gain_split_node [OF s2] unfolding s by simp
  have chg: "feature (ex3b ! 1) SL \<noteq> feature (ex3b ! 2) SL"
    by (simp add: ex3b_def flower_sel)
  show ?thesis
    using bt kids ftSW bSL bSW lt chg s2 g2 by blast
qed

theorem later_feature_committed_witness:
  "\<bar>gain_at exact_fpu ex3b 1 - gain_at exact_fpu ex3b 1\<bar> \<le> 1 / 10
   \<and> \<bar>gain_at exact_fpu ex3b 2 - gain_at exact_fpu ex3b 2\<bar> \<le> 1 / 10
   \<and> (\<exists>t k' gSL gSW. build_tree exact_fpu 1 ent0 (new_Node ex3b []) 0 = Inr (t, k')
     \<and> left_of t \<noteq> None \<and> feature_of t = ''SW''
     \<and> best_gain exact_fpu SL (new_Node ex3b []) = Inr gSL
     \<and> best_gain exact_fpu SW (new_Node ex3b []) = Inr gSW \<and> gSL < gSW
     \<and> feature (ex3b ! 1) SL \<noteq> feature (ex3b ! 2) SL
     \<and> (\<exists>node2. split_node (sort_flowers_by SL (new_Node ex3b [])) 2 = Inr node2
           \<and> gain exact_fpu node2 = Inr gSW))"
  using later_feature_committed [of exact_fpu] by simp

section \<open>Class counts and the leaf label\<close>

lemma total_of_valid: "total_of fls = int (length (filter valid_class fls))"
proof (induction fls)
  case Nil
  show ?case by (simp add: total_of_def cnt_def)
next
  case (Cons x xs)
  then show ?case by (auto simp: total_of_def cnt_def valid_class_def)
qed

text \<open>
  Claim C10. The three counters that \<open>count_class\<close> returns add up to the number of flowers
  of the node whose class code is 0, 1 or 2. So they add up to the size of the partition when
  every flower has such a code, and to less as soon as one flower has another code: that
  flower is counted by none of the three.
\<close>

theorem count_class_total:
  "(case count_class node of (a, b, c) \<Rightarrow>
      a + b + c = int (length (filter valid_class (flowers_of node)))
    \<and> ((\<forall>fl \<in> set (flowers_of node). valid_class fl) \<longrightarrow>
         a + b + c = int (length (flowers_of node)))
    \<and> ((\<exists>fl \<in> set (flowers_of node). \<not> valid_class fl) \<longrightarrow>
         a + b + c < int (length (flowers_of node))))"
proof -
  let ?fls = "flowers_of node"
  have t: "total_of ?fls = int (length (filter valid_class ?fls))"
    by (rule total_of_valid)
  have all: "length (filter valid_class ?fls) = length ?fls" if "\<forall>fl \<in> set ?fls. valid_class fl"
    using that by simp
  have some: "length (filter valid_class ?fls) < length ?fls" if "\<exists>fl \<in> set ?fls. \<not> valid_class fl"
    using that by (auto intro: length_filter_less)
  show ?thesis
    using t all some by (auto simp: count_class_cnt total_of_def)
qed

theorem count_class_total_witness:
  "list_all valid_class [flower 1 1 1 1 0, flower 2 2 2 2 1, flower 3 3 3 3 2]
   \<and> count_class (new_Node [flower 1 1 1 1 0, flower 2 2 2 2 1, flower 3 3 3 3 2] []) = (1, 1, 1)
   \<and> (\<exists>fl \<in> set [flower 1 1 1 1 0, flower 2 2 2 2 7]. \<not> valid_class fl)
   \<and> count_class (new_Node [flower 1 1 1 1 0, flower 2 2 2 2 7] []) = (1, 0, 0)"
  using count_class_total [of "new_Node [flower 1 1 1 1 0, flower 2 2 2 2 1, flower 3 3 3 3 2] []"]
    count_class_total [of "new_Node [flower 1 1 1 1 0, flower 2 2 2 2 7] []"]
  by (simp add: count_class_def new_Node_def flower_def valid_class_def get_class_def)

text \<open>
  Claim C2. \<open>find_best\<close> on the counts \<open>(a, b, c)\<close> of the classes 0, 1, 2, with \<open>d2\<close> the
  uniform draw from 0, 1, 2 and \<open>d1\<close> the uniform draw from 0, 1. Three equal counts: the
  result is \<open>d2\<close>, a uniform class among the three. Two equal counts above the third: the
  result is \<open>d1\<close>, \<open>1 + d1\<close> or \<open>2 * d1\<close>, which sends the two values of the draw one to one
  onto the two tied classes. Two equal counts below the third, or three distinct counts: the
  class of the strictly largest count, whatever the draws. With draws in their ranges the
  result is one of 0, 1, 2.
\<close>

theorem find_best_policy:
  "(a = b \<and> b = c \<longrightarrow> find_best (d2, d1) a b c = d2)
   \<and> (a = b \<and> c < b \<longrightarrow> find_best (d2, d1) a b c = d1)
   \<and> (b = c \<and> a < c \<longrightarrow> find_best (d2, d1) a b c = 1 + d1)
   \<and> (c = a \<and> b < a \<longrightarrow> find_best (d2, d1) a b c = 2 * d1)
   \<and> (a = b \<and> b < c \<longrightarrow> find_best (d2, d1) a b c = 2)
   \<and> (b = c \<and> c < a \<longrightarrow> find_best (d2, d1) a b c = 0)
   \<and> (c = a \<and> a < b \<longrightarrow> find_best (d2, d1) a b c = 1)
   \<and> (b < a \<and> c < a \<and> b \<noteq> c \<longrightarrow> find_best (d2, d1) a b c = 0)
   \<and> (a < b \<and> c < b \<and> a \<noteq> c \<longrightarrow> find_best (d2, d1) a b c = 1)
   \<and> (a < c \<and> b < c \<and> a \<noteq> b \<longrightarrow> find_best (d2, d1) a b c = 2)
   \<and> (d2 \<in> {0, 1, 2} \<and> d1 \<in> {0, 1} \<longrightarrow> find_best (d2, d1) a b c \<in> {0, 1, 2})"
  by auto

theorem find_best_policy_witness:
  "find_best (2, 1) 5 5 5 = 2
   \<and> find_best (2, 1) 5 5 1 = 1 \<and> find_best (2, 0) 5 5 1 = 0
   \<and> find_best (2, 1) 1 5 5 = 2 \<and> find_best (2, 1) 5 1 5 = 2
   \<and> find_best (2, 1) 5 1 1 = 0 \<and> find_best (2, 1) 1 1 5 = 2 \<and> find_best (2, 1) 1 5 1 = 1
   \<and> find_best (2, 1) 7 5 3 = 0 \<and> find_best (2, 1) 3 7 5 = 1 \<and> find_best (2, 1) 3 5 7 = 2
   \<and> (2::int) \<in> {0, 1, 2} \<and> (1::int) \<in> {0, 1} \<and> find_best (2, 1) 5 5 5 \<in> {0, 1, 2}"
  using find_best_policy [of 5 5 5 2 1] find_best_policy [of 5 5 1 2 1] find_best_policy [of 5 5 1 2 0]
    find_best_policy [of 1 5 5 2 1] find_best_policy [of 5 1 5 2 1] find_best_policy [of 5 1 1 2 1]
    find_best_policy [of 1 1 5 2 1] find_best_policy [of 1 5 1 2 1] find_best_policy [of 7 5 3 2 1]
    find_best_policy [of 3 7 5 2 1] find_best_policy [of 3 5 7 2 1]
  by simp

section \<open>Claims about the finished tree\<close>

text \<open>
  The shape of every committed split, in every arithmetic: the flowers of the node are sorted
  by its feature, the value of the feature is strictly greater at an index \<open>i\<close> than at
  \<open>i - 1\<close>, the threshold is the midpoint computed from these two values, the left child
  holds the flowers before \<open>i\<close> and the right child those from \<open>i\<close> on, and the two
  partitions together are the partition of the node as a multiset. How the threshold compares
  with the two values is a matter of the arithmetic.
\<close>

lemma build_tree_split_shape:
  assumes "build_tree fp md ent node k = Inr (t, k')"
    and "n \<in> set (nodes_of t)" and "left_of n = Some l" and "right_of n = Some r"
  shows "exact_split fp n l r \<and> mset (flowers_of l) + mset (flowers_of r) = mset (flowers_of n)"
proof -
  have ne: "flowers_of node \<noteq> []"
  proof
    assume "flowers_of node = []"
    from build_tree_empty [OF this, of fp md ent k] assms(1)
    have "t = leaf_of (ent k) (position_of node) []" by (auto split: if_splits)
    with assms(2,3) show False by (simp add: leaf_of_def)
  qed
  from build_tree_exact [OF ne, of fp md ent k] assms have "exact_split fp n l r"
    by auto
  then show ?thesis
    using exact_split_union [of fp n l r] by simp
qed

text \<open>
  Claim C3, at an input where the code departs from it. The sepal lengths of the two flowers
  of \<open>ex2r\<close> are the adjacent \<open>double\<close> values 1 and \<open>1 + 2^-52\<close>. Their sum
  \<open>2 + 2^-52\<close> lies halfway between the \<open>double\<close> values 2 and \<open>2 + 2^-51\<close> and rounds to
  the one with the even significand, 2; line 138 halves it and stores the threshold 1. The
  left child holds the flower of sepal length 1, whose value is not strictly below the
  threshold, and \<open>validate_flower\<close> sends this flower to the right child, whose label is
  not its class.
\<close>

theorem threshold_rounds_to_left_value:
  "build_tree binary64 1 ent0 (new_Node ex2r []) 0 = Inr (ex2r_tree, 2)
   \<and> to_double one_plus_ulp = one_plus_ulp \<and> 1 < one_plus_ulp
   \<and> feature_of ex2r_tree = ''SL'' \<and> threshold_of ex2r_tree = 1
   \<and> left_of ex2r_tree = Some (Node ''0'' 0 ''L'' [flower 1 1 1 1 0] None None)
   \<and> \<not> feature (flower 1 1 1 1 0) SL < threshold_of ex2r_tree
   \<and> get_class (flower 1 1 1 1 0) = 0
   \<and> classify_spec ex2r_tree (flower 1 1 1 1 0) = Some ''1''
   \<and> validate_flower ex2r_tree (flower 1 1 1 1 0) = Inr False"
  by (simp add: ex2r_build_tree one_plus_ulp_props ex2r_validate flower_sel)
     (simp add: ex2r_tree_def)




text \<open>
  Claim C7, amended. Whenever \<open>depth + position_.size()\<close> fits an \<open>int\<close>, the effective
  maximum is the configured depth plus the length of the root label, for a negative
  configured depth too. When the configured depth is, in addition, not negative, every leaf
  of the finished tree is at most the configured depth below the root. The claim as written
  has neither condition: with the configured depth -1 the root itself is a leaf at depth 0,
  and with the configured depth \<open>2^31 - 1\<close> and a label of one character the sum wraps.
\<close>

theorem leaf_depth_bounded:
  assumes "- (2 ^ 31) \<le> depth + int (length name)" and "depth + int (length name) < 2 ^ 31"
  shows "set_max_depth (new_Node fls name) depth = depth + int (length name)
    \<and> (0 \<le> depth \<longrightarrow>
        (\<forall>t k'. build_tree fp (set_max_depth (new_Node fls name) depth) ent (new_Node fls name) k
                  = Inr (t, k') \<longrightarrow>
           (\<forall>n \<in> set (nodes_of t). left_of n = None \<and> right_of n = None \<longrightarrow>
              int (length (position_of n)) - int (length name) \<le> depth)))"
proof -
  let ?root = "new_Node fls name"
  have pos: "position_of ?root = name" and fl: "flowers_of ?root = fls"
    by (simp_all add: new_Node_def)
  have md: "set_max_depth ?root depth = depth + int (length name)"
    using set_max_depth_in_range [of depth ?root] assms unfolding pos by simp
  have bound: "\<forall>n \<in> set (nodes_of t). int (length (position_of n)) \<le> depth + int (length name)"
    if nn: "0 \<le> depth"
      and bt: "build_tree fp (depth + int (length name)) ent ?root k = Inr (t, k')" for t k'
  proof (cases "fls = []")
    case True
    have "flowers_of ?root = []" using True fl by simp
    from build_tree_empty [OF this, of fp "depth + int (length name)" ent k] bt
    have "t = leaf_of (ent k) name []"
      unfolding pos by (auto split: if_splits)
    then show ?thesis using nn by (simp add: leaf_of_def)
  next
    case False
    then have "flowers_of ?root \<noteq> []" by (simp add: fl)
    from build_tree_depth [OF this, of fp "depth + int (length name)" ent k] nn bt
    show ?thesis unfolding pos by auto
  qed
  show ?thesis
  proof (intro conjI impI allI ballI)
    show "set_max_depth ?root depth = depth + int (length name)" by (rule md)
  next
    fix t k' n
    assume nn: "0 \<le> depth"
      and bt: "build_tree fp (set_max_depth ?root depth) ent ?root k = Inr (t, k')"
      and n: "n \<in> set (nodes_of t)"
    from bound [OF nn bt [unfolded md]] n
    have "int (length (position_of n)) \<le> depth + int (length name)" by blast
    then show "int (length (position_of n)) - int (length name) \<le> depth" by simp
  qed
qed

theorem leaf_depth_bounded_witness:
  "- (2 ^ 31) \<le> (1::int) + int (length ''LR'') \<and> (1::int) + int (length ''LR'') < 2 ^ 31
   \<and> set_max_depth (new_Node ex2 ''LR'') 1 = 1 + int (length ''LR'')
   \<and> (0::int) \<le> 1
   \<and> build_tree binary64 (set_max_depth (new_Node ex2 ''LR'') 1) ent0 (new_Node ex2 ''LR'') 0
       = Inr (ex2_tree ''LR'', 2)
   \<and> left_of (ex2_tree ''LR'') = Some (Node ''0'' 0 ''LRL'' [flower 1 1 1 1 0] None None)
   \<and> right_of (ex2_tree ''LR'') = Some (Node ''1'' 0 ''LRR'' [flower 2 1 1 1 1] None None)
   \<and> list_all (\<lambda>n. left_of n = None \<and> right_of n = None \<longrightarrow>
          int (length (position_of n)) - int (length ''LR'') \<le> 1)
        (nodes_of (ex2_tree ''LR''))
   \<and> - (2 ^ 31) \<le> (- 1::int) + int (length ''LR'') \<and> (- 1::int) + int (length ''LR'') < 2 ^ 31
   \<and> set_max_depth (new_Node ex2 ''LR'') (- 1) = - 1 + int (length ''LR'')"
proof -
  have md: "set_max_depth (new_Node ex2 ''LR'') 1 = 3"
    by (simp add: set_max_depth_def new_Node_def signed_take_bit_int_eq_self)
  have b: "build_tree binary64 (set_max_depth (new_Node ex2 ''LR'') 1) ent0 (new_Node ex2 ''LR'') 0
       = Inr (ex2_tree ''LR'', 2)"
    unfolding md by (rule ex2_build_tree) simp
  have lr: "left_of (ex2_tree ''LR'') = Some (Node ''0'' 0 ''LRL'' [flower 1 1 1 1 0] None None)"
    "right_of (ex2_tree ''LR'') = Some (Node ''1'' 0 ''LRR'' [flower 2 1 1 1 1] None None)"
    by (simp_all add: ex2_tree_def)
  note t1 = leaf_depth_bounded [of 1 "''LR''" ex2 binary64 ent0 0]
  note t2 = leaf_depth_bounded [of "- 1" "''LR''" ex2 binary64 ent0 0]
  have r1: "- (2 ^ 31) \<le> (1::int) + int (length ''LR'')" "(1::int) + int (length ''LR'') < 2 ^ 31"
    and r2: "- (2 ^ 31) \<le> (- 1::int) + int (length ''LR'')" "(- 1::int) + int (length ''LR'') < 2 ^ 31"
    by simp_all
  have e1: "set_max_depth (new_Node ex2 ''LR'') 1 = 1 + int (length ''LR'')"
    using t1 [OF r1] by (rule conjunct1)
  have e2: "set_max_depth (new_Node ex2 ''LR'') (- 1) = - 1 + int (length ''LR'')"
    using t2 [OF r2] by (rule conjunct1)
  have "\<forall>n \<in> set (nodes_of (ex2_tree ''LR'')). left_of n = None \<and> right_of n = None \<longrightarrow>
          int (length (position_of n)) - int (length ''LR'') \<le> 1"
    using conjunct2 [OF t1 [OF r1]] b by simp
  then have la: "list_all (\<lambda>n. left_of n = None \<and> right_of n = None \<longrightarrow>
          int (length (position_of n)) - int (length ''LR'') \<le> 1) (nodes_of (ex2_tree ''LR''))"
    by (simp add: list_all_iff)
  show ?thesis
    by (intro conjI r1 r2 e1 e2 b lr la) simp
qed

theorem leaf_depth_negative_counterexample:
  "build_tree binary64 (set_max_depth (new_Node [flower 1 1 1 1 0] []) (- 1)) ent0
       (new_Node [flower 1 1 1 1 0] []) 0
     = Inr (Node ''0'' 0 [] [flower 1 1 1 1 0] None None, 1)
   \<and> \<not> int (length (position_of (Node ''0'' 0 [] [flower 1 1 1 1 0] None None)))
         - int (length ([]::string)) \<le> - 1
   \<and> set_max_depth (new_Node [] ''L'') 2147483647 \<noteq> 2147483647 + int (length ''L'')"
proof -
  have md: "set_max_depth (new_Node [flower 1 1 1 1 0] []) (- 1) = - 1"
    by (simp add: set_max_depth_def new_Node_def)
  have "build_tree binary64 (- 1) ent0 (new_Node [flower 1 1 1 1 0] []) 0
     = Inr (Node ''0'' 0 [] [flower 1 1 1 1 0] None None, 1)"
    by (simp add: single_leaf leaf_of_def cnt_def flower_sel ent0_def to_string_small)
  moreover have "set_max_depth (new_Node [] ''L'') 2147483647 \<noteq> 2147483647 + int (length ''L'')"
    by (simp add: set_max_depth_def new_Node_def)
  ultimately show ?thesis unfolding md by simp
qed

section \<open>Labels as strings\<close>









section \<open>Classification\<close>








section \<open>The candidates of the split search\<close>

lemma ex3_sorted: "sort_key sl_of ex3 = ex3"
  by (simp add: ex3_def flower_sel)

lemma ex3_next: "next_change SL ex3 1 = Inr 1"
  by (simp add: next_change.simps ex3_def vec_at_def flower_sel)

lemma ex3_scan:
  "scan fp SL (Node ft th pos ex3 l r) 1 1 0 =
     Inr (Node ft th pos ex3 (Some (new_Node [flower 1 1 1 1 0] (pos @ ''L'')))
            (Some (new_Node [flower 2 1 1 1 0, flower 3 1 1 1 1] (pos @ ''R''))),
          1, max 0 (gain_at fp ex3 1))"
proof -
  let ?n = "Node ft th pos ex3 l r"
  have len: "length ex3 = 3" by (simp add: ex3_def)
  have td: "take 1 ex3 = [flower 1 1 1 1 0]" "drop 1 ex3 = [flower 2 1 1 1 0, flower 3 1 1 1 1]"
    by (simp_all add: ex3_def)
  show ?thesis
    using scan_step [of 1 ?n SL 1 fp 1 0]
    by (simp add: len ex3_next td scan_stop max_def del: One_nat_def)
qed

text \<open>
  Claim C1, at an input where the code departs from it. On \<open>ex3\<close> the value of SL changes
  at index 1 and at index 2. \<open>max_gain\<close> tests index 1, then line 134 and the loop header
  move \<open>split_point\<close> to 3 and the loop ends: index 2 is never a candidate. The search
  returns a gain and the split at index 1, while \<open>gain\<close> after \<open>split_node(2)\<close> on the same
  sorted node is strictly greater. This holds in every arithmetic whose gains at the two
  indices are within 1/10 of the exact ones (those of \<open>double\<close> arithmetic are within
  \<open>10^-15\<close>); the exact gains are about 0.25 and 0.92.
\<close>

theorem max_gain_skips_candidate:
  assumes "\<bar>gain_at fp ex3 1 - gain_at exact_fpu ex3 1\<bar> \<le> 1 / 10"
    and "\<bar>gain_at fp ex3 2 - gain_at exact_fpu ex3 2\<bar> \<le> 1 / 10"
  shows "\<exists>g node'. max_gain fp SL (new_Node ex3 []) = Inr (g, node')
     \<and> left_of node' = Some (new_Node [flower 1 1 1 1 0] ''L'')
     \<and> right_of node' = Some (new_Node [flower 2 1 1 1 0, flower 3 1 1 1 1] ''R'')
     \<and> feature (ex3 ! 1) SL \<noteq> feature (ex3 ! 2) SL
     \<and> (\<exists>node2 g2. split_node (sort_flowers_by SL (new_Node ex3 [])) 2 = Inr node2
           \<and> gain fp node2 = Inr g2 \<and> g < g2)"
proof -
  let ?s = "sort_flowers_by SL (new_Node ex3 [])"
  let ?c = "max 0 (gain_at fp ex3 1)"
  have s: "?s = Node [] 0 [] ex3 None None"
    by (simp add: sort_flowers_by_def new_Node_def ex3_sorted)
  have len: "length ex3 = 3" by (simp add: ex3_def)
  have mg: "max_gain fp SL (new_Node ex3 []) =
      Inr (?c, Node ''SL'' (midpoint_at fp SL ex3 1) [] ex3 (Some (new_Node [flower 1 1 1 1 0] ''L''))
                (Some (new_Node [flower 2 1 1 1 0, flower 3 1 1 1 1] ''R'')))"
    unfolding max_gain_def s ex3_scan
    by (simp add: split_node_def vec_at_def len feature_name_def midpoint_at_def del: One_nat_def)
       (simp add: ex3_def)
  obtain node3 where s3: "split_node ?s 2 = Inr node3"
    using split_node_ok [of 2 ?s] len unfolding s by auto
  have g3: "gain fp node3 = Inr (gain_at fp ex3 2)"
    using gain_split_node [OF s3] unfolding s by simp
  have "gain_at fp ex3 1 \<le> gain_at exact_fpu ex3 1 + 1 / 10"
    and "gain_at exact_fpu ex3 2 - 1 / 10 \<le> gain_at fp ex3 2"
    using assms by linarith+
  then have lt: "?c < gain_at fp ex3 2"
    using I_thirds(1) unfolding ex3_gains by linarith
  have ne: "feature (ex3 ! 1) SL \<noteq> feature (ex3 ! 2) SL"
    by (simp add: ex3_def flower_sel)
  show ?thesis
    unfolding mg using s3 g3 lt ne by auto
qed

theorem max_gain_skips_candidate_witness:
  "\<bar>gain_at exact_fpu ex3 1 - gain_at exact_fpu ex3 1\<bar> \<le> 1 / 10
   \<and> \<bar>gain_at exact_fpu ex3 2 - gain_at exact_fpu ex3 2\<bar> \<le> 1 / 10
   \<and> (\<exists>g node'. max_gain exact_fpu SL (new_Node ex3 []) = Inr (g, node')
     \<and> left_of node' = Some (new_Node [flower 1 1 1 1 0] ''L'')
     \<and> right_of node' = Some (new_Node [flower 2 1 1 1 0, flower 3 1 1 1 1] ''R'')
     \<and> feature (ex3 ! 1) SL \<noteq> feature (ex3 ! 2) SL
     \<and> (\<exists>node2 g2. split_node (sort_flowers_by SL (new_Node ex3 [])) 2 = Inr node2
           \<and> gain exact_fpu node2 = Inr g2 \<and> g < g2))"
  using max_gain_skips_candidate [of exact_fpu] by simp

end
